theory Spec2Isabelle
  imports Complex_Main "HOL-Library.Word" "HOL-Library.Log_Nat"
begin

section \<open>PipelineBase: asynchronous submission, in-order retrieval\<close>

text \<open>
  A shallow embedding of \<^verbatim>\<open>demos/common/processing/pipeline_base.cpp\<close>.
  The class members of \<^verbatim>\<open>PipelineBase\<close> become a record, the member functions
  \<^verbatim>\<open>submitRequest\<close>, \<^verbatim>\<open>getResult\<close> and \<^verbatim>\<open>waitForData\<close> and the
  completion lambda become functions that take the state and return the new one. A thrown
  exception is the \<open>Inl\<close> branch of a sum, returned together with the state that the throw
  leaves behind. Every reading of \<^verbatim>\<open>steady_clock::now()\<close> is an argument of the
  function that takes it.
\<close>

subsection \<open>Data\<close>

text \<open>
  \<^verbatim>\<open>int64_t\<close> is a 64-bit word read as two's complement by \<open>sint\<close>; the increment
  wraps, so that the test \<^verbatim>\<open>inputFrameId < 0\<close> which follows it in the source sees
  the most negative value after the largest one. Points and spans of the steady clock are
  counts of nanosecond ticks held in 64 bits, signed: differences and sums of them wrap
  like the counters do.
\<close>

type_synonym int64_t = "64 word"
type_synonym uint32_t = "32 word"
type_synonym time_point = "64 word"
type_synonym duration = "64 word"

text \<open>An \<^verbatim>\<open>InferRequest::Ptr\<close> is known by its identity only.\<close>

type_synonym InferRequest = nat

text \<open>The payload copied out of a request's output blob; its content is opaque here.\<close>

type_synonym blob = "int list"

text \<open>
  What the code throws and catches: the \<^verbatim>\<open>std::invalid_argument\<close> of
  \<^verbatim>\<open>submitRequest\<close>, and whatever the executor raises while the completion lambda
  reads the output blob (numbered, so that two faults can differ).
\<close>

datatype exception = invalid_argument string | execution_fault nat

text \<open>
  \<^verbatim>\<open>perfInfo.FPS\<close> is a \<^verbatim>\<open>double\<close>: an IEEE 754 binary64 number, that is a
  sign with a magnitude (a real that has at most 53 significant bits at an exponent between
  \<open>-1022\<close> and \<open>1023\<close>, zero included), a signed infinity, or not a number.
\<close>

datatype sign = Plus | Minus

datatype double = Finite sign real | Infinity sign | NaN

definition sign_mul :: "sign \<Rightarrow> sign \<Rightarrow> sign" where
  "sign_mul s t = (if s = t then Plus else Minus)"

text \<open>
  Rounding to nearest, ties to even, the rounding of every operation below. \<open>binade x\<close> is
  the exponent \<open>e\<close> with \<open>2 ^ e \<le> x < 2 ^ (e + 1)\<close> of a positive \<open>x\<close>. The spacing of the
  doubles around \<open>x\<close> is \<open>2 ^ (e - 52)\<close>, and \<open>2 ^ (- 1074)\<close> below the normal range.
  A magnitude that rounds to \<open>2 ^ 1024\<close> or more overflows to infinity.
\<close>

definition pow2 :: "int \<Rightarrow> real" where
  "pow2 k = (if 0 \<le> k then 2 ^ nat k else 1 / 2 ^ nat (- k))"

definition binade :: "real \<Rightarrow> int" where
  "binade x = (if 1 \<le> x then bitlen \<lfloor>x\<rfloor> - 1 else - bitlen (\<lceil>1 / x\<rceil> - 1))"

definition round_half_even :: "real \<Rightarrow> int" where
  "round_half_even x =
     (let n = \<lfloor>x\<rfloor>; f = x - real_of_int n
      in if f < 1 / 2 then n else if 1 / 2 < f then n + 1 else if even n then n else n + 1)"

definition rounded :: "sign \<Rightarrow> real \<Rightarrow> double" where
  "rounded s m =
     (if m = 0 then Finite s 0
      else
        (let ulp = pow2 (max (binade m) (- 1022) - 52);
             y = real_of_int (round_half_even (m / ulp)) * ulp
         in if 2 ^ 1024 \<le> y then Infinity s else Finite s y))"

text \<open>The conversion of an integer, and the product and the quotient of two doubles.\<close>

definition double_of_int :: "int \<Rightarrow> double" where
  "double_of_int k = rounded (if k < 0 then Minus else Plus) \<bar>real_of_int k\<bar>"

fun double_mul :: "double \<Rightarrow> double \<Rightarrow> double" where
  "double_mul (Finite s x) (Finite t y) = rounded (sign_mul s t) (x * y)"
| "double_mul (Finite s x) (Infinity t) = (if x = 0 then NaN else Infinity (sign_mul s t))"
| "double_mul (Infinity s) (Finite t y) = (if y = 0 then NaN else Infinity (sign_mul s t))"
| "double_mul (Infinity s) (Infinity t) = Infinity (sign_mul s t)"
| "double_mul a b = NaN"

fun double_div :: "double \<Rightarrow> double \<Rightarrow> double" where
  "double_div (Finite s x) (Finite t y) =
     (if y = 0 then (if x = 0 then NaN else Infinity (sign_mul s t))
      else rounded (sign_mul s t) (x / y))"
| "double_div (Finite s x) (Infinity t) = Finite (sign_mul s t) 0"
| "double_div (Infinity s) (Finite t y) = Infinity (sign_mul s t)"
| "double_div a b = NaN"

text \<open>
  \<^verbatim>\<open>duration_cast<milliseconds>(d).count()\<close>: the whole milliseconds of a span of
  nanosecond ticks, by the integer division that truncates towards zero.
\<close>

definition duration_cast_milliseconds :: "duration \<Rightarrow> int" where
  "duration_cast_milliseconds d = sgn (sint d) * (\<bar>sint d\<bar> div 1000000)"

text \<open>
  Modelled from the spec: the declaration of \<^verbatim>\<open>PerformanceInfo\<close> is in
  \<^verbatim>\<open>pipeline_base.h\<close>, which is not among the sources. The fields are those the code
  assigns; \<open>framesCount\<close> is the spec's counter of completed frames, taken as an integer.
\<close>

record PerformanceInfo =
  framesCount :: int
  latencySum :: duration
  startTime :: time_point
  numRequestsInUse :: uint32_t
  FPS :: double

text \<open>
  Modelled from the spec: \<^verbatim>\<open>RequestResult\<close> is declared in the same header. The
  fields are those the completion lambda fills; \<open>outputBlob\<close> is the shared pointer
  \<^verbatim>\<open>output\<close>, \<open>None\<close> when null. A value-initialised result is the empty one a
  caller recognises.
\<close>

record RequestResult =
  frameId :: int64_t
  outputBlob :: "blob option"
  startTime :: time_point

definition RequestResult_empty :: RequestResult where
  "RequestResult_empty = \<lparr>frameId = 0, outputBlob = None, startTime = 0\<rparr>"

definition IsEmpty :: "RequestResult \<Rightarrow> bool" where
  "IsEmpty r = (outputBlob r = None)"

text \<open>
  Modelled from the spec: \<^verbatim>\<open>RequestsPool\<close> is another class of the repository that is
  not among the sources. A pool is a fixed list of slots, each \<open>Idle\<close> or \<open>InUse\<close>; a request
  is the index of its slot. \<open>getInUseRequestsCount\<close> counts the slots in use,
  \<open>setRequestIdle\<close> marks one idle, and \<open>getIdleRequest\<close> hands out the first idle slot,
  marked in use, or none.
\<close>

datatype Slot = Idle | InUse

type_synonym RequestsPool = "Slot list"

definition getInUseRequestsCount :: "RequestsPool \<Rightarrow> nat" where
  "getInUseRequestsCount pool = length (filter (\<lambda>s. s = InUse) pool)"

definition setRequestIdle :: "InferRequest \<Rightarrow> RequestsPool \<Rightarrow> RequestsPool" where
  "setRequestIdle request pool = (if request < length pool then pool[request := Idle] else pool)"

fun firstIdle :: "RequestsPool \<Rightarrow> InferRequest option" where
  "firstIdle [] = None"
| "firstIdle (s # pool) = (if s = Idle then Some 0 else map_option Suc (firstIdle pool))"

definition getIdleRequest :: "RequestsPool \<Rightarrow> InferRequest option \<times> RequestsPool" where
  "getIdleRequest pool =
     (case firstIdle pool of
        None \<Rightarrow> (None, pool)
      | Some request \<Rightarrow> (Some request, pool[request := InUse]))"

subsection \<open>The completion buffer\<close>

text \<open>
  \<^verbatim>\<open>completedRequestResults\<close> is a standard associative container keyed by frame
  number. It is kept as an association list, so that holding each key at most once is a
  property to be proved of the operations and not one of the type. \<open>find\<close> is \<open>map_of\<close>.
  \<open>emplace\<close> inserts only where the key is absent; \<open>erase\<close> removes the entry that \<open>find\<close>
  returned.
\<close>

type_synonym results_map = "(int64_t \<times> RequestResult) list"

definition emplace :: "int64_t \<Rightarrow> RequestResult \<Rightarrow> results_map \<Rightarrow> results_map" where
  "emplace k v m = (if map_of m k = None then m @ [(k, v)] else m)"

fun erase :: "int64_t \<Rightarrow> results_map \<Rightarrow> results_map" where
  "erase k [] = []"
| "erase k (kv # m) = (if fst kv = k then m else kv # erase k m)"

subsection \<open>The pipeline\<close>

record PipelineBase =
  inputFrameId :: int64_t
  outputFrameId :: int64_t
  outputName :: string
  requestsPool :: RequestsPool
  completedRequestResults :: results_map
  callbackException :: "exception option"
  perfInfo :: PerformanceInfo

text \<open>What the completion lambda captures by value.\<close>

record closure =
  frameStartTime :: time_point
  frameID :: int64_t
  request :: InferRequest

text \<open>
  The pipeline together with the executor's side of it: \<open>inflight\<close> holds, for each request
  on which \<^verbatim>\<open>SetCompletionCallback\<close> and \<^verbatim>\<open>StartAsync\<close> have been called and whose
  completion has not been delivered yet, the lambda that was registered.
\<close>

record system =
  pipeline :: PipelineBase
  inflight :: "InferRequest \<rightharpoonup> closure"

text \<open>
  The constructor sets both frame counters to 0; the other members are default-constructed:
  an empty buffer, no stored exception. The performance counters, whose initialisers are in
  the header, are taken to start at zero, the value \<^verbatim>\<open>submitRequest\<close> tests the start
  time against. The output name and the pool are what the derived class and
  \<^verbatim>\<open>init\<close> leave there.
\<close>

definition PipelineBase_new :: "string \<Rightarrow> RequestsPool \<Rightarrow> PipelineBase" where
  "PipelineBase_new name pool =
     \<lparr>inputFrameId = 0, outputFrameId = 0, outputName = name, requestsPool = pool,
      completedRequestResults = [], callbackException = None,
      perfInfo = \<lparr>framesCount = 0, latencySum = 0, startTime = 0,
                  numRequestsInUse = 0, FPS = Finite Plus 0\<rparr>\<rparr>"

definition system_new :: "string \<Rightarrow> RequestsPool \<Rightarrow> system" where
  "system_new name pool = \<lparr>pipeline = PipelineBase_new name pool, inflight = Map.empty\<rparr>"

subsection \<open>The completion lambda and waitForData\<close>

text \<open>The predicate the condition variable waits for.\<close>

definition waitPredicate :: "PipelineBase \<Rightarrow> bool" where
  "waitPredicate p =
     (callbackException p \<noteq> None \<or> getInUseRequestsCount (requestsPool p) \<noteq> 0
      \<or> completedRequestResults p \<noteq> [])"

text \<open>
  The body of the lambda that \<^verbatim>\<open>submitRequest\<close> registers, run under the mutex. Its
  second argument is the outcome of the one expression of the \<^verbatim>\<open>try\<close> block that
  reads the executor, the copy of the blob named \<open>outputName\<close>: the copied payload, or the
  exception raised. On success the result is emplaced under \<open>frameID\<close> and the request is
  set idle; on an exception the \<^verbatim>\<open>catch (...)\<close> block stores it if none is stored yet.
\<close>

definition completionCallback ::
  "closure \<Rightarrow> exception + blob \<Rightarrow> PipelineBase \<Rightarrow> PipelineBase" where
  "completionCallback c outcome p =
     (case outcome of
        Inr payload \<Rightarrow>
          (let result = \<lparr>frameId = frameID c, outputBlob = Some payload,
                         startTime = frameStartTime c\<rparr>;
               p1 = p\<lparr>completedRequestResults :=
                        emplace (frameID c) result (completedRequestResults p)\<rparr>
           in p1\<lparr>requestsPool := setRequestIdle (request c) (requestsPool p1)\<rparr>)
      | Inl e \<Rightarrow>
          (if callbackException p = None then p\<lparr>callbackException := Some e\<rparr> else p))"

text \<open>
  The wait on the condition variable is a loop: it tests the predicate and, while it is
  false, sleeps until a completion lambda has run and notified. The completions delivered
  while the caller sleeps are the first argument, in the order they run under the mutex.
  The result says whether the wait ended; when the completions run out with the predicate
  still false, the caller stays blocked.
\<close>

fun condVar_wait ::
  "(closure \<times> (exception + blob)) list \<Rightarrow> PipelineBase \<Rightarrow> bool \<times> PipelineBase" where
  "condVar_wait [] p = (waitPredicate p, p)"
| "condVar_wait (c # cs) p =
     (if waitPredicate p then (True, p)
      else condVar_wait cs (completionCallback (fst c) (snd c) p))"

text \<open>
  \<^verbatim>\<open>waitForData\<close>: after the wait, a stored exception is rethrown, the same one that
  was stored.
\<close>

datatype wait_outcome = Returned | Rethrown exception | Blocked

definition waitForData ::
  "(closure \<times> (exception + blob)) list \<Rightarrow> PipelineBase \<Rightarrow> wait_outcome \<times> PipelineBase" where
  "waitForData cs p =
     (case condVar_wait cs p of
        (False, p') \<Rightarrow> (Blocked, p')
      | (True, p') \<Rightarrow>
          (case callbackException p' of
             Some e \<Rightarrow> (Rethrown e, p')
           | None \<Rightarrow> (Returned, p')))"

text \<open>The state after a list of completions has run.\<close>

fun deliver :: "(closure \<times> (exception + blob)) list \<Rightarrow> PipelineBase \<Rightarrow> PipelineBase" where
  "deliver [] p = p"
| "deliver (c # cs) p = deliver cs (completionCallback (fst c) (snd c) p)"

subsection \<open>submitRequest\<close>

text \<open>The post-increment of a frame counter with the reset that follows it.\<close>

definition next_frame :: "int64_t \<Rightarrow> int64_t" where
  "next_frame n = (if sint (n + 1) < 0 then 0 else n + 1)"

definition submitRequest ::
  "InferRequest \<Rightarrow> time_point \<Rightarrow> system \<Rightarrow> (exception + int64_t) \<times> system" where
  "submitRequest req now w =
     (let p = pipeline w;
          p1 = p\<lparr>perfInfo := (perfInfo p)\<lparr>numRequestsInUse :=
                   word_of_nat (getInUseRequestsCount (requestsPool p))\<rparr>\<rparr>
      in if outputName p1 = []
         then (Inl (invalid_argument ''outputName values is not set.''), w\<lparr>pipeline := p1\<rparr>)
         else
           (let frameStartTime = now;
                p2 = (if PerformanceInfo.startTime (perfInfo p1) = 0
                      then p1\<lparr>perfInfo := (perfInfo p1)\<lparr>PerformanceInfo.startTime :=
                                 frameStartTime\<rparr>\<rparr>
                      else p1);
                frameID = inputFrameId p2;
                callback = \<lparr>frameStartTime = frameStartTime, frameID = frameID, request = req\<rparr>;
                p3 = p2\<lparr>inputFrameId := next_frame (inputFrameId p2)\<rparr>
            in (Inr frameID, \<lparr>pipeline = p3, inflight = (inflight w)(req \<mapsto> callback)\<rparr>)))"

subsection \<open>getResult\<close>

definition getResult :: "time_point \<Rightarrow> PipelineBase \<Rightarrow> RequestResult \<times> PipelineBase" where
  "getResult now p =
     (case map_of (completedRequestResults p) (outputFrameId p) of
        Some retVal \<Rightarrow>
          (let p1 = p\<lparr>completedRequestResults :=
                        erase (outputFrameId p) (completedRequestResults p)\<rparr>;
               p2 = p1\<lparr>outputFrameId := next_frame (outputFrameId p1)\<rparr>;
               i1 = (perfInfo p2)\<lparr>latencySum :=
                        latencySum (perfInfo p2) + (now - startTime retVal)\<rparr>;
               i2 = i1\<lparr>framesCount := framesCount i1 + 1\<rparr>;
               i3 = i2\<lparr>FPS :=
                        double_div (double_mul (double_of_int (framesCount i2)) (Finite Plus 1000))
                          (double_of_int (duration_cast_milliseconds
                             (now - PerformanceInfo.startTime i2)))\<rparr>
           in (retVal, p2\<lparr>perfInfo := i3\<rparr>))
      | None \<Rightarrow> (RequestResult_empty, p))"

text \<open>
  The rate that \<open>getResult\<close> stores for \<open>n\<close> frames over a span \<open>d\<close>: \<open>n\<close> as a double times
  \<open>1000.0\<close>, divided by the whole milliseconds of \<open>d\<close> as a double.
\<close>

definition frame_rate :: "int \<Rightarrow> duration \<Rightarrow> double" where
  "frame_rate n d =
     double_div (double_mul (double_of_int n) (Finite Plus 1000))
       (double_of_int (duration_cast_milliseconds d))"

subsection \<open>Runs of the system\<close>

text \<open>
  The consumer takes requests from the pool, submits and polls, and the executor delivers
  completions, in any interleaving. A completion is delivered only to a request that is in
  flight, and once: it runs the registered lambda and takes the request out of \<open>inflight\<close>.
  \<open>submitRequest\<close> itself does not look at the pool, so a run may submit any request.
\<close>

datatype event =
    Acquire
  | Submit InferRequest time_point
  | Complete InferRequest "exception + blob"
  | GetResult time_point

fun step :: "event \<Rightarrow> system \<Rightarrow> system" where
  "step Acquire w =
     w\<lparr>pipeline := (pipeline w)\<lparr>requestsPool :=
          snd (getIdleRequest (requestsPool (pipeline w)))\<rparr>\<rparr>"
| "step (Submit req now) w = snd (submitRequest req now w)"
| "step (Complete req outcome) w =
     (case inflight w req of
        None \<Rightarrow> w
      | Some c \<Rightarrow> \<lparr>pipeline = completionCallback c outcome (pipeline w),
                   inflight = (inflight w)(req := None)\<rparr>)"
| "step (GetResult now) w = w\<lparr>pipeline := snd (getResult now (pipeline w))\<rparr>"

fun exec :: "event list \<Rightarrow> system \<Rightarrow> system" where
  "exec [] w = w"
| "exec (ev # evs) w = exec evs (step ev w)"

text \<open>
  What the calls of \<open>getResult\<close> in a run give back, in call order, each with the clock
  reading of its call; \<open>retrieved\<close> keeps the results that are not empty.
\<close>

fun returned :: "event list \<Rightarrow> system \<Rightarrow> (time_point \<times> RequestResult) list" where
  "returned [] w = []"
| "returned (GetResult now # evs) w =
     (now, fst (getResult now (pipeline w))) # returned evs (step (GetResult now) w)"
| "returned (ev # evs) w = returned evs (step ev w)"

definition retrieved :: "event list \<Rightarrow> system \<Rightarrow> (time_point \<times> RequestResult) list" where
  "retrieved evs w = filter (\<lambda>x. \<not> IsEmpty (snd x)) (returned evs w)"

fun is_Submit :: "event \<Rightarrow> bool" where
  "is_Submit (Submit req now) = True"
| "is_Submit ev = False"

definition submissions :: "event list \<Rightarrow> nat" where
  "submissions evs = length (filter is_Submit evs)"

text \<open>The \<open>i\<close>-th frame number counted from \<open>n\<close>, with the counter's reset.\<close>

fun frame_after :: "nat \<Rightarrow> int64_t \<Rightarrow> int64_t" where
  "frame_after 0 n = n"
| "frame_after (Suc i) n = frame_after i (next_frame n)"

subsection \<open>Invariants\<close>

text \<open>
  What every operation keeps true of the buffer: each key occurs once, and the result
  stored under a key carries that key as its frame number and a payload.
\<close>

definition buffer_ok :: "results_map \<Rightarrow> bool" where
  "buffer_ok m =
     (distinct (map fst m) \<and>
      list_all (\<lambda>kv. frameId (snd kv) = fst kv \<and> outputBlob (snd kv) \<noteq> None) m)"

text \<open>The frames that can still be retrieved: completed ones and those in flight.\<close>

definition pending :: "system \<Rightarrow> nat" where
  "pending w = length (completedRequestResults (pipeline w)) + card (dom (inflight w))"

text \<open>The frame rate is computed from the clock reading of the first submission of a run.\<close>

fun first_submit_time :: "event list \<Rightarrow> time_point option" where
  "first_submit_time [] = None"
| "first_submit_time (Submit req now # evs) = Some now"
| "first_submit_time (ev # evs) = first_submit_time evs"

text \<open>The sum of the latencies of retrieved results: retrieval time minus recorded start.\<close>

definition latencies :: "(time_point \<times> RequestResult) list \<Rightarrow> duration" where
  "latencies rs = sum_list (map (\<lambda>x. fst x - startTime (snd x)) rs)"

text \<open>The same sum over the integers, of the signed readings.\<close>

definition int_latencies :: "(time_point \<times> RequestResult) list \<Rightarrow> int" where
  "int_latencies rs = sum_list (map (\<lambda>x. sint (fst x) - sint (startTime (snd x))) rs)"

text \<open>A session in which nothing has been submitted yet.\<close>

definition quiet :: "system \<Rightarrow> bool" where
  "quiet w = (completedRequestResults (pipeline w) = [] \<and> inflight w = Map.empty \<and>
              PerformanceInfo.startTime (perfInfo (pipeline w)) = 0)"

text \<open>
  While the submission counter has not wrapped, frame numbers identify units of work: the
  numbers in the buffer and in flight are below the counter and pairwise different, and a
  registered lambda belongs to the request it is registered on.
\<close>

definition frames_unique :: "system \<Rightarrow> bool" where
  "frames_unique w =
     (0 \<le> sint (inputFrameId (pipeline w)) \<and>
      (\<forall>k \<in> fst ` set (completedRequestResults (pipeline w)).
          sint k < sint (inputFrameId (pipeline w))) \<and>
      (\<forall>r c. inflight w r = Some c \<longrightarrow>
          request c = r \<and>
          sint (frameID c) < sint (inputFrameId (pipeline w)) \<and>
          frameID c \<notin> fst ` set (completedRequestResults (pipeline w)) \<and>
          (\<forall>r' c'. inflight w r' = Some c' \<and> r' \<noteq> r \<longrightarrow> frameID c' \<noteq> frameID c)))"

text \<open>A frame number that was given out, is not in the buffer and is no longer in flight.\<close>

definition frame_dead :: "int64_t \<Rightarrow> system \<Rightarrow> bool" where
  "frame_dead k w =
     (0 \<le> sint (inputFrameId (pipeline w)) \<and>
      sint k < sint (inputFrameId (pipeline w)) \<and>
      k \<notin> fst ` set (completedRequestResults (pipeline w)) \<and>
      (\<forall>r c. inflight w r = Some c \<longrightarrow> frameID c \<noteq> k))"

definition slot_in_use :: "InferRequest \<Rightarrow> system \<Rightarrow> bool" where
  "slot_in_use r w =
     (r < length (requestsPool (pipeline w)) \<and> requestsPool (pipeline w) ! r = InUse)"

definition slot_held :: "InferRequest \<Rightarrow> system \<Rightarrow> bool" where
  "slot_held r w =
     (slot_in_use r w \<and> inflight w r = None \<and>
      (\<forall>r' c. inflight w r' = Some c \<longrightarrow> request c = r'))"

text \<open>The submissions of a run do not take the counter past its largest value.\<close>

definition no_wrap :: "event list \<Rightarrow> system \<Rightarrow> bool" where
  "no_wrap evs w = (sint (inputFrameId (pipeline w)) + int (submissions evs) < 2 ^ 63)"

subsection \<open>Sample sessions\<close>

text \<open>
  A pipeline with two slots and five frames whose completions arrive in the order
  1, 0, 3, 2, 4, polled in between. Clock readings are in nanoseconds.
\<close>

definition two_slots :: system where
  "two_slots = system_new ''detection_out'' [Idle, Idle]"

definition five_frames :: "event list" where
  "five_frames =
     [Acquire, Submit 0 1000000, Acquire, Submit 1 2000000, GetResult 2500000,
      Complete 1 (Inr [1]), GetResult 3000000, Acquire, Submit 1 3500000,
      Complete 0 (Inr [0]), GetResult 4000000, GetResult 4500000,
      Acquire, Submit 0 5000000, GetResult 5500000,
      Complete 0 (Inr [3]), GetResult 6000000, Complete 1 (Inr [2]),
      GetResult 7000000, GetResult 7500000,
      Acquire, Submit 0 8000000, Complete 0 (Inr [4]), GetResult 9000000, GetResult 9500000]"

text \<open>A pipeline after one frame was submitted at 1 ms and has completed.\<close>

definition one_ready :: PipelineBase where
  "one_ready =
     \<lparr>inputFrameId = 1, outputFrameId = 0, outputName = ''detection_out'',
      requestsPool = [Idle, Idle],
      completedRequestResults =
        [(0, \<lparr>frameId = 0, outputBlob = Some [7], startTime = 1000000\<rparr>)],
      callbackException = None,
      perfInfo = \<lparr>framesCount = 0, latencySum = 0, startTime = 1000000,
                  numRequestsInUse = 1, FPS = Finite Plus 0\<rparr>\<rparr>"

text \<open>A pipeline whose output name was never set, with one slot taken by the caller.\<close>

definition unconfigured :: system where
  "unconfigured = system_new [] [InUse, Idle]"

text \<open>Two frames submitted on the two slots, none completed yet.\<close>

definition two_submits :: "event list" where
  "two_submits = [Acquire, Submit 0 1000000, Acquire, Submit 1 2000000]"

definition two_in_flight :: system where
  "two_in_flight =
     \<lparr>pipeline =
        \<lparr>inputFrameId = 2, outputFrameId = 0, outputName = ''detection_out'',
         requestsPool = [InUse, InUse], completedRequestResults = [],
         callbackException = None,
         perfInfo = \<lparr>framesCount = 0, latencySum = 0, startTime = 1000000,
                     numRequestsInUse = 2, FPS = Finite Plus 0\<rparr>\<rparr>,
      inflight = [0 \<mapsto> \<lparr>frameStartTime = 1000000, frameID = 0, request = 0\<rparr>,
                  1 \<mapsto> \<lparr>frameStartTime = 2000000, frameID = 1, request = 1\<rparr>]\<rparr>"

text \<open>
  One frame submitted; then, after its completion has raised, a second frame is submitted
  and completes while the consumer polls.
\<close>

definition one_submit :: "event list" where
  "one_submit = [Acquire, Submit 0 1000000]"

definition after_fault :: "event list" where
  "after_fault =
     [GetResult 2000000, Acquire, Submit 1 3000000, Complete 1 (Inr [5]), GetResult 4000000]"

text \<open>
  After the completion of frame 0 on request 0 has raised: the consumer submitting request 0
  again, and that unit completing.
\<close>

definition resubmit :: "event list" where
  "resubmit = [Submit 0 3000000, Complete 0 (Inr [5])]"

text \<open>
  The same start, followed by \<open>2 ^ 63\<close> further units, each taken from the pool, submitted
  on request 1 and completed, with no result retrieved: the submission counter goes once
  round. \<open>cycling m\<close> describes the states in between, with the counter at \<open>m\<close>.
\<close>

definition cycle :: "event list" where
  "cycle = [Acquire, Submit 1 3000000, Complete 1 (Inr [5])]"

definition wrap_around :: "event list" where
  "wrap_around =
     one_submit @ [Complete 0 (Inl (execution_fault 7))] @
     concat (replicate (2 ^ 63 - 1) cycle) @ cycle"

definition cycling :: "nat \<Rightarrow> system \<Rightarrow> bool" where
  "cycling m w =
     (outputName (pipeline w) \<noteq> [] \<and> inflight w = Map.empty \<and>
      requestsPool (pipeline w) = [InUse, Idle] \<and>
      inputFrameId (pipeline w) = word_of_nat m \<and>
      outputFrameId (pipeline w) = 0 \<and>
      map_of (completedRequestResults (pipeline w)) 0 = None)"

section \<open>Lemmas\<close>

subsection \<open>The completion buffer\<close>

lemma keys_emplace: "fst ` set (emplace k v m) = insert k (fst ` set m)"
  by (auto simp: emplace_def map_of_eq_None_iff image_iff)

lemma distinct_emplace:
  "distinct (map fst m) \<Longrightarrow> distinct (map fst (emplace k v m))"
  by (auto simp: emplace_def map_of_eq_None_iff)

lemma emplace_present: "map_of m k = Some v0 \<Longrightarrow> emplace k v m = m"
  by (simp add: emplace_def)

lemma length_emplace_le: "length (emplace k v m) \<le> Suc (length m)"
  by (simp add: emplace_def)

lemma set_erase_subset: "set (erase k m) \<subseteq> set m"
  by (induction m) auto

lemma distinct_erase: "distinct (map fst m) \<Longrightarrow> distinct (map fst (erase k m))"
proof (induction m)
  case Nil
  then show ?case by simp
next
  case (Cons kv m)
  have "fst ` set (erase k m) \<subseteq> fst ` set m"
    using set_erase_subset [of k m] by blast
  with Cons show ?case by auto
qed

lemma map_of_erase:
  "distinct (map fst m) \<Longrightarrow> map_of (erase k m) = (map_of m)(k := None)"
proof (induction m)
  case Nil
  then show ?case by simp
next
  case (Cons kv m)
  show ?case
  proof (cases "fst kv = k")
    case True
    with Cons.prems have "map_of m k = None"
      by (simp add: map_of_eq_None_iff)
    with True show ?thesis by (cases kv) (auto simp: fun_eq_iff)
  next
    case False
    with Cons show ?thesis by (cases kv) (auto simp: fun_eq_iff)
  qed
qed

lemma length_erase: "map_of m k = Some v \<Longrightarrow> Suc (length (erase k m)) = length m"
  by (induction m) (auto split: if_splits)

subsection \<open>The frame counters\<close>

lemma next_frame_nonneg: "0 \<le> sint (next_frame n)"
  by (simp add: next_frame_def)

lemma sint_succ:
  fixes n :: int64_t
  assumes "0 \<le> sint n" and "n \<noteq> 0x7FFFFFFFFFFFFFFF"
  shows "sint (n + 1) = sint n + 1"
proof -
  have "sint n < 2 ^ 63" using sint_lt [of n] by simp
  moreover have "sint n \<noteq> 2 ^ 63 - 1"
  proof
    assume "sint n = 2 ^ 63 - 1"
    then have "word_of_int (sint n) = (word_of_int (2 ^ 63 - 1) :: int64_t)" by simp
    then show False using assms(2) by simp
  qed
  ultimately have "sint n + 1 < 2 ^ 63" by simp
  then show ?thesis using assms(1)
    by (simp add: sint_word_ariths signed_take_bit_int_eq_self)
qed

lemma next_frame_eq:
  "0 \<le> sint n \<Longrightarrow> next_frame n = (if n = 0x7FFFFFFFFFFFFFFF then 0 else n + 1)"
  using sint_succ [of n] by (auto simp: next_frame_def)

section \<open>Submission\<close>

lemma submitRequest_ok:
  "outputName (pipeline w) \<noteq> [] \<Longrightarrow>
   fst (submitRequest req now w) = Inr (inputFrameId (pipeline w)) \<and>
   inputFrameId (pipeline (snd (submitRequest req now w))) =
     next_frame (inputFrameId (pipeline w)) \<and>
   outputName (pipeline (snd (submitRequest req now w))) = outputName (pipeline w)"
  by (simp add: submitRequest_def Let_def)

text \<open>
  Claim C2, as the code has it. With the output name unset, \<open>submitRequest\<close> throws
  \<^verbatim>\<open>std::invalid_argument\<close>. The in-use count is sampled into
  \<open>perfInfo.numRequestsInUse\<close> before the name is tested, so that one counter is written
  even by the failing call; nothing else changes: no request is registered or started, the
  pool, both frame counters, the buffer, the stored exception and the other performance
  counters are as before. The state is the same exactly when the sampled count is the one
  already stored.
\<close>

theorem submitRequest_unconfigured:
  "outputName (pipeline w) = [] \<Longrightarrow>
   (let w' = snd (submitRequest req now w); p = pipeline w; p' = pipeline w' in
      fst (submitRequest req now w) = Inl (invalid_argument ''outputName values is not set.'') \<and>
      inflight w' = inflight w \<and>
      requestsPool p' = requestsPool p \<and>
      inputFrameId p' = inputFrameId p \<and>
      outputFrameId p' = outputFrameId p \<and>
      outputName p' = outputName p \<and>
      completedRequestResults p' = completedRequestResults p \<and>
      callbackException p' = callbackException p \<and>
      framesCount (perfInfo p') = framesCount (perfInfo p) \<and>
      latencySum (perfInfo p') = latencySum (perfInfo p) \<and>
      PerformanceInfo.startTime (perfInfo p') = PerformanceInfo.startTime (perfInfo p) \<and>
      FPS (perfInfo p') = FPS (perfInfo p) \<and>
      numRequestsInUse (perfInfo p') = word_of_nat (getInUseRequestsCount (requestsPool p)) \<and>
      (numRequestsInUse (perfInfo p) = word_of_nat (getInUseRequestsCount (requestsPool p))
         \<longrightarrow> w' = w))"
  by (simp add: submitRequest_def Let_def)

theorem submitRequest_unconfigured_witness:
  "outputName (pipeline unconfigured) = [] \<and>
   fst (submitRequest 0 5000000 unconfigured) =
     Inl (invalid_argument ''outputName values is not set.'') \<and>
   inputFrameId (pipeline (snd (submitRequest 0 5000000 unconfigured))) = 0 \<and>
   inflight (snd (submitRequest 0 5000000 unconfigured)) = Map.empty \<and>
   numRequestsInUse (perfInfo (pipeline (snd (submitRequest 0 5000000 unconfigured)))) = 1"
proof -
  have h: "outputName (pipeline unconfigured) = []"
    by (simp add: unconfigured_def system_new_def PipelineBase_new_def)
  show ?thesis
    using h submitRequest_unconfigured [OF h, of 0 5000000]
    by (simp add: Let_def unconfigured_def system_new_def PipelineBase_new_def
        getInUseRequestsCount_def)
qed

text \<open>
  Claim C2, as the spec states it, fails: the failing call is not free of side effects. On
  a fresh pipeline with no output name and one slot in use, the call changes
  \<open>perfInfo.numRequestsInUse\<close> from 0 to 1, so the state after it is not the state before.
\<close>

theorem submitRequest_unconfigured_counterexample:
  "outputName (pipeline unconfigured) = [] \<and>
   snd (submitRequest 0 5000000 unconfigured) \<noteq> unconfigured \<and>
   numRequestsInUse (perfInfo (pipeline unconfigured)) = 0 \<and>
   numRequestsInUse (perfInfo (pipeline (snd (submitRequest 0 5000000 unconfigured)))) = 1"
  by (simp add: submitRequest_def unconfigured_def system_new_def PipelineBase_new_def Let_def
      getInUseRequestsCount_def)

lemma inputFrameId_nonneg_step:
  "0 \<le> sint (inputFrameId (pipeline w)) \<Longrightarrow> 0 \<le> sint (inputFrameId (pipeline (step ev w)))"
  by (cases ev)
    (auto simp: submitRequest_def getResult_def completionCallback_def Let_def
      next_frame_nonneg split: option.splits sum.splits)

lemma inputFrameId_nonneg_exec:
  "0 \<le> sint (inputFrameId (pipeline w)) \<Longrightarrow> 0 \<le> sint (inputFrameId (pipeline (exec evs w)))"
  by (induction evs arbitrary: w) (simp_all add: inputFrameId_nonneg_step del: step.simps)

lemma inputFrameId_nonneg_reachable:
  "0 \<le> sint (inputFrameId (pipeline (exec evs (system_new name pool))))"
  by (rule inputFrameId_nonneg_exec) (simp add: system_new_def PipelineBase_new_def)

text \<open>
  Claim C6. A successful \<open>submitRequest\<close> (the output name is set) returns the value
  \<open>inputFrameId\<close> had before the call. Afterwards \<open>inputFrameId\<close> is that value plus one,
  or zero when the value was the largest 64-bit signed number; it is never negative. So the
  next successful submission returns the following frame number. The counter is not
  negative before the call: it starts at 0 and no run makes it negative, as
  \<open>inputFrameId_nonneg_reachable\<close> shows.
\<close>

theorem submitRequest_frame_numbers:
  assumes "outputName (pipeline w) \<noteq> []" and "0 \<le> sint (inputFrameId (pipeline w))"
  shows "fst (submitRequest req now w) = Inr (inputFrameId (pipeline w)) \<and>
         inputFrameId (pipeline (snd (submitRequest req now w))) =
           (if inputFrameId (pipeline w) = 0x7FFFFFFFFFFFFFFF then 0
            else inputFrameId (pipeline w) + 1) \<and>
         0 \<le> sint (inputFrameId (pipeline (snd (submitRequest req now w)))) \<and>
         fst (submitRequest req' now' (snd (submitRequest req now w))) =
           Inr (if inputFrameId (pipeline w) = 0x7FFFFFFFFFFFFFFF then 0
                else inputFrameId (pipeline w) + 1)"
proof -
  let ?w' = "snd (submitRequest req now w)"
  have 1: "fst (submitRequest req now w) = Inr (inputFrameId (pipeline w))"
    and 2: "inputFrameId (pipeline ?w') = next_frame (inputFrameId (pipeline w))"
    and 3: "outputName (pipeline ?w') \<noteq> []"
    using submitRequest_ok [OF assms(1), of req now] assms(1) by simp_all
  have 4: "0 \<le> sint (inputFrameId (pipeline ?w'))"
    by (simp add: 2 next_frame_nonneg)
  have 5: "fst (submitRequest req' now' ?w') = Inr (inputFrameId (pipeline ?w'))"
    using submitRequest_ok [OF 3, of req' now'] by simp
  have 6: "next_frame (inputFrameId (pipeline w)) =
      (if inputFrameId (pipeline w) = 0x7FFFFFFFFFFFFFFF then 0
       else inputFrameId (pipeline w) + 1)"
    using assms(2) by (rule next_frame_eq)
  show ?thesis using 1 2 4 5 6 by simp
qed

theorem submitRequest_frame_numbers_witness:
  "outputName (pipeline two_slots) \<noteq> [] \<and>
   0 \<le> sint (inputFrameId (pipeline two_slots)) \<and>
   fst (submitRequest 0 1000000 two_slots) = Inr 0 \<and>
   inputFrameId (pipeline (snd (submitRequest 0 1000000 two_slots))) = 1 \<and>
   fst (submitRequest 1 2000000 (snd (submitRequest 0 1000000 two_slots))) = Inr 1"
proof -
  have h1: "outputName (pipeline two_slots) \<noteq> []"
    by (simp add: two_slots_def system_new_def PipelineBase_new_def)
  have h2: "0 \<le> sint (inputFrameId (pipeline two_slots))"
    by (simp add: two_slots_def system_new_def PipelineBase_new_def)
  have z: "inputFrameId (pipeline two_slots) = 0"
    by (simp add: two_slots_def system_new_def PipelineBase_new_def)
  show ?thesis
    using h1 h2 submitRequest_frame_numbers [OF h1 h2, of 0 1000000 1 2000000]
    by (simp add: z)
qed

section \<open>Retrieval\<close>

text \<open>
  Claim C5. \<open>getResult\<close> looks up the one key \<open>outputFrameId\<close>. Where the buffer has no
  entry under it, the empty result is returned and the whole state is unchanged. Where it
  has one, that entry is returned and removed (the buffer loses that key and no other, and
  is one entry shorter, so a second call cannot return it again), \<open>outputFrameId\<close> advances
  by one with the reset past the largest value, the latency, the frame count and the rate
  are updated, and nothing else changes. The buffer holds each key once, which every
  operation preserves.
\<close>

theorem getResult_point_lookup:
  "(map_of (completedRequestResults p) (outputFrameId p) = None \<longrightarrow>
      getResult now p = (RequestResult_empty, p)) \<and>
   (\<forall>r. map_of (completedRequestResults p) (outputFrameId p) = Some r \<and>
        distinct (map fst (completedRequestResults p)) \<longrightarrow>
      (let p' = snd (getResult now p) in
         fst (getResult now p) = r \<and>
         map_of (completedRequestResults p') =
           (map_of (completedRequestResults p))(outputFrameId p := None) \<and>
         Suc (length (completedRequestResults p')) = length (completedRequestResults p) \<and>
         outputFrameId p' = next_frame (outputFrameId p) \<and>
         (0 \<le> sint (outputFrameId p) \<longrightarrow>
            outputFrameId p' =
              (if outputFrameId p = 0x7FFFFFFFFFFFFFFF then 0 else outputFrameId p + 1)) \<and>
         framesCount (perfInfo p') = framesCount (perfInfo p) + 1 \<and>
         latencySum (perfInfo p') = latencySum (perfInfo p) + (now - startTime r) \<and>
         FPS (perfInfo p') =
           frame_rate (framesCount (perfInfo p) + 1)
             (now - PerformanceInfo.startTime (perfInfo p)) \<and>
         PerformanceInfo.startTime (perfInfo p') = PerformanceInfo.startTime (perfInfo p) \<and>
         numRequestsInUse (perfInfo p') = numRequestsInUse (perfInfo p) \<and>
         inputFrameId p' = inputFrameId p \<and> outputName p' = outputName p \<and>
         requestsPool p' = requestsPool p \<and> callbackException p' = callbackException p))"
  by (auto simp: getResult_def Let_def map_of_erase length_erase next_frame_eq frame_rate_def)

lemma one_ready_reachable:
  "pipeline (exec [Acquire, Submit 0 1000000, Complete 0 (Inr [7])] two_slots) = one_ready"
  by (simp add: two_slots_def one_ready_def system_new_def PipelineBase_new_def
      submitRequest_def completionCallback_def getIdleRequest_def getInUseRequestsCount_def
      setRequestIdle_def emplace_def next_frame_def Let_def)

theorem getResult_point_lookup_witness:
  "getResult 3000000 (PipelineBase_new ''detection_out'' [Idle]) =
     (RequestResult_empty, PipelineBase_new ''detection_out'' [Idle]) \<and>
   fst (getResult 3000000 one_ready) =
     \<lparr>frameId = 0, outputBlob = Some [7], startTime = 1000000\<rparr> \<and>
   map_of (completedRequestResults (snd (getResult 3000000 one_ready))) 0 = None \<and>
   length (completedRequestResults (snd (getResult 3000000 one_ready))) = 0 \<and>
   outputFrameId (snd (getResult 3000000 one_ready)) = 1 \<and>
   framesCount (perfInfo (snd (getResult 3000000 one_ready))) = 1 \<and>
   latencySum (perfInfo (snd (getResult 3000000 one_ready))) = 2000000"
proof -
  have a: "map_of (completedRequestResults (PipelineBase_new ''detection_out'' [Idle]))
             (outputFrameId (PipelineBase_new ''detection_out'' [Idle])) = None"
    by (simp add: PipelineBase_new_def)
  have b: "map_of (completedRequestResults one_ready) (outputFrameId one_ready) =
             Some \<lparr>frameId = 0, outputBlob = Some [7], startTime = 1000000\<rparr>"
    by (simp add: one_ready_def)
  have c: "distinct (map fst (completedRequestResults one_ready))"
    by (simp add: one_ready_def)
  have d: "outputFrameId one_ready = 0" "length (completedRequestResults one_ready) = 1"
    "framesCount (perfInfo one_ready) = 0" "latencySum (perfInfo one_ready) = 0"
    by (simp_all add: one_ready_def)
  show ?thesis
    using a b c getResult_point_lookup [of "PipelineBase_new ''detection_out'' [Idle]" 3000000]
      getResult_point_lookup [of one_ready 3000000]
    by (simp add: Let_def d next_frame_def)
qed

section \<open>The completion lambda\<close>

text \<open>
  Claim C9. Where the buffer already holds an entry under the frame number of a completed
  request, the lambda's \<open>emplace\<close> leaves the buffer as it is: the stored entry stays and
  the new result is dropped. With that, every step of the system (taking a request,
  submission, a completion of either kind, retrieval) keeps each frame number at most once
  in the buffer.
\<close>

theorem emplace_never_overwrites:
  "(map_of (completedRequestResults p) (frameID c) \<noteq> None \<longrightarrow>
      completedRequestResults (completionCallback c (Inr payload) p) =
        completedRequestResults p)
   \<and> (distinct (map fst (completedRequestResults (pipeline w))) \<longrightarrow>
      distinct (map fst (completedRequestResults (pipeline (step ev w)))))"
proof (intro conjI impI)
  assume "map_of (completedRequestResults p) (frameID c) \<noteq> None"
  then show "completedRequestResults (completionCallback c (Inr payload) p) =
      completedRequestResults p"
    by (auto simp: completionCallback_def Let_def emplace_present)
next
  assume d: "distinct (map fst (completedRequestResults (pipeline w)))"
  show "distinct (map fst (completedRequestResults (pipeline (step ev w))))"
  proof (cases ev)
    case Acquire
    with d show ?thesis by simp
  next
    case (Submit req now)
    with d show ?thesis by (simp add: submitRequest_def Let_def)
  next
    case (Complete req outcome)
    with d show ?thesis
      by (auto simp: completionCallback_def Let_def distinct_emplace
          split: option.splits sum.splits)
  next
    case (GetResult now)
    with d show ?thesis
      by (auto simp: getResult_def Let_def distinct_erase split: option.splits)
  qed
qed

theorem emplace_never_overwrites_witness:
  "map_of (completedRequestResults one_ready) 0 \<noteq> None \<and>
   completedRequestResults
     (completionCallback \<lparr>frameStartTime = 9000000, frameID = 0, request = 1\<rparr> (Inr [8])
        one_ready) =
     [(0, \<lparr>frameId = 0, outputBlob = Some [7], startTime = 1000000\<rparr>)] \<and>
   distinct (map fst (completedRequestResults one_ready)) \<and>
   distinct (map fst (completedRequestResults (pipeline
     (step (Complete 1 (Inr [8]))
        \<lparr>pipeline = one_ready,
         inflight = [1 \<mapsto> \<lparr>frameStartTime = 9000000, frameID = 0, request = 1\<rparr>]\<rparr>))))"
proof -
  have a: "map_of (completedRequestResults one_ready) 0 \<noteq> None"
    by (simp add: one_ready_def)
  have b: "distinct (map fst (completedRequestResults one_ready))"
    by (simp add: one_ready_def)
  have c: "completedRequestResults one_ready =
      [(0, \<lparr>frameId = 0, outputBlob = Some [7], startTime = 1000000\<rparr>)]"
    by (simp add: one_ready_def)
  show ?thesis
    using a b
      emplace_never_overwrites [of one_ready
        "\<lparr>frameStartTime = 9000000, frameID = 0, request = 1\<rparr>" "[8]"
        "\<lparr>pipeline = one_ready,
          inflight = [1 \<mapsto> \<lparr>frameStartTime = 9000000, frameID = 0, request = 1\<rparr>]\<rparr>"
        "Complete 1 (Inr [8])"]
    by (simp add: c)
qed

text \<open>
  Claim C10. A completion that raised changes the stored exception and no other field of
  the pipeline: buffer, frame counters, pool and performance counters are those of before.
  \<open>getResult\<close> does not read the stored exception: whatever is stored, it returns the same
  result and makes the same changes, and it always returns. In particular, right after a
  completion has raised, a result that is in the buffer under \<open>outputFrameId\<close> is returned
  and removed, the counters advance, and the exception stays stored.
\<close>

theorem fault_capture_frame:
  "completionCallback c (Inl e) p =
     p\<lparr>callbackException := Some (case callbackException p of None \<Rightarrow> e | Some e0 \<Rightarrow> e0)\<rparr>
   \<and> getResult now (p\<lparr>callbackException := x\<rparr>) =
       (fst (getResult now p), (snd (getResult now p))\<lparr>callbackException := x\<rparr>)
   \<and> (\<forall>r. map_of (completedRequestResults p) (outputFrameId p) = Some r \<longrightarrow>
         callbackException (completionCallback c (Inl e) p) \<noteq> None \<and>
         fst (getResult now (completionCallback c (Inl e) p)) = r \<and>
         completedRequestResults (snd (getResult now (completionCallback c (Inl e) p))) =
           erase (outputFrameId p) (completedRequestResults p) \<and>
         outputFrameId (snd (getResult now (completionCallback c (Inl e) p))) =
           next_frame (outputFrameId p) \<and>
         framesCount (perfInfo (snd (getResult now (completionCallback c (Inl e) p)))) =
           framesCount (perfInfo p) + 1 \<and>
         callbackException (snd (getResult now (completionCallback c (Inl e) p))) =
           callbackException (completionCallback c (Inl e) p))"
  by (auto simp: completionCallback_def getResult_def Let_def split: option.splits)

theorem fault_capture_frame_witness:
  "map_of (completedRequestResults one_ready) (outputFrameId one_ready) =
     Some \<lparr>frameId = 0, outputBlob = Some [7], startTime = 1000000\<rparr> \<and>
   callbackException
     (completionCallback \<lparr>frameStartTime = 2000000, frameID = 1, request = 1\<rparr>
        (Inl (execution_fault 1)) one_ready) = Some (execution_fault 1) \<and>
   fst (getResult 3000000
     (completionCallback \<lparr>frameStartTime = 2000000, frameID = 1, request = 1\<rparr>
        (Inl (execution_fault 1)) one_ready)) =
     \<lparr>frameId = 0, outputBlob = Some [7], startTime = 1000000\<rparr> \<and>
   completedRequestResults (snd (getResult 3000000
     (completionCallback \<lparr>frameStartTime = 2000000, frameID = 1, request = 1\<rparr>
        (Inl (execution_fault 1)) one_ready))) = [] \<and>
   outputFrameId (snd (getResult 3000000
     (completionCallback \<lparr>frameStartTime = 2000000, frameID = 1, request = 1\<rparr>
        (Inl (execution_fault 1)) one_ready))) = 1"
proof -
  have h: "map_of (completedRequestResults one_ready) (outputFrameId one_ready) =
     Some \<lparr>frameId = 0, outputBlob = Some [7], startTime = 1000000\<rparr>"
    by (simp add: one_ready_def)
  have n: "callbackException one_ready = None" "outputFrameId one_ready = 0"
    "erase 0 (completedRequestResults one_ready) = []"
    by (simp_all add: one_ready_def)
  have ce: "callbackException
     (completionCallback \<lparr>frameStartTime = 2000000, frameID = 1, request = 1\<rparr>
        (Inl (execution_fault 1)) one_ready) = Some (execution_fault 1)"
    by (simp add: completionCallback_def n)
  note big = fault_capture_frame [of "\<lparr>frameStartTime = 2000000, frameID = 1, request = 1\<rparr>"
      "execution_fault 1" one_ready 3000000 None,
      THEN conjunct2, THEN conjunct2, rule_format, OF h]
  show ?thesis
    using h ce big by (simp add: n next_frame_def)
qed

section \<open>Retrieval order\<close>

subsection \<open>The buffer invariant\<close>

lemma buffer_ok_emplace:
  "buffer_ok m \<Longrightarrow> buffer_ok (emplace k \<lparr>frameId = k, outputBlob = Some b, startTime = t\<rparr> m)"
  by (auto simp: buffer_ok_def emplace_def map_of_eq_None_iff)

lemma buffer_ok_erase: "buffer_ok m \<Longrightarrow> buffer_ok (erase k m)"
  using set_erase_subset [of k m]
  by (auto simp: buffer_ok_def distinct_erase list_all_iff)

lemma buffer_ok_lookup:
  "buffer_ok m \<Longrightarrow> map_of m k = Some r \<Longrightarrow> frameId r = k \<and> \<not> IsEmpty r"
  by (auto simp: buffer_ok_def list_all_iff IsEmpty_def dest!: map_of_SomeD)

lemma buffer_ok_step:
  assumes ok: "buffer_ok (completedRequestResults (pipeline w))"
  shows "buffer_ok (completedRequestResults (pipeline (step ev w)))"
proof (cases ev)
  case Acquire
  with ok show ?thesis by simp
next
  case (Submit req now)
  with ok show ?thesis by (simp add: submitRequest_def Let_def)
next
  case (Complete req outcome)
  with ok show ?thesis
    by (auto simp: completionCallback_def Let_def buffer_ok_emplace
        split: option.splits sum.splits)
next
  case (GetResult now)
  with ok show ?thesis
    by (auto simp: getResult_def Let_def buffer_ok_erase split: option.splits)
qed

lemma getResult_cases:
  assumes "buffer_ok (completedRequestResults p)"
  shows "(IsEmpty (fst (getResult now p)) \<and> snd (getResult now p) = p) \<or>
         (\<not> IsEmpty (fst (getResult now p)) \<and> frameId (fst (getResult now p)) = outputFrameId p \<and>
          outputFrameId (snd (getResult now p)) = next_frame (outputFrameId p))"
proof (cases "map_of (completedRequestResults p) (outputFrameId p)")
  case None
  then show ?thesis by (simp add: getResult_def IsEmpty_def RequestResult_empty_def)
next
  case (Some r)
  with buffer_ok_lookup [OF assms Some] show ?thesis
    by (simp add: getResult_def Let_def)
qed

lemma outputFrameId_step:
  "\<not> (\<exists>now. ev = GetResult now) \<Longrightarrow>
   outputFrameId (pipeline (step ev w)) = outputFrameId (pipeline w)"
  by (cases ev)
    (auto simp: submitRequest_def completionCallback_def Let_def split: option.splits sum.splits)

lemma retrieved_Nil [simp]: "retrieved [] w = []"
  by (simp add: retrieved_def)

lemma retrieved_GetResult:
  "retrieved (GetResult now # evs) w =
     (if IsEmpty (fst (getResult now (pipeline w))) then [] 
      else [(now, fst (getResult now (pipeline w)))]) @ retrieved evs (step (GetResult now) w)"
  by (simp add: retrieved_def)

lemma retrieved_other:
  "\<not> (\<exists>now. ev = GetResult now) \<Longrightarrow> retrieved (ev # evs) w = retrieved evs (step ev w)"
  by (cases ev) (simp_all add: retrieved_def)

lemma map_upt_shift: "map f [0..<Suc n] = f 0 # map (\<lambda>i. f (Suc i)) [0..<n]"
  by (simp add: upt_conv_Cons map_Suc_upt [symmetric] del: upt_Suc)

lemma retrieved_frames:
  "buffer_ok (completedRequestResults (pipeline w)) \<Longrightarrow>
   map (\<lambda>x. frameId (snd x)) (retrieved evs w) =
     map (\<lambda>i. frame_after i (outputFrameId (pipeline w))) [0..<length (retrieved evs w)]"
proof (induction evs arbitrary: w)
  case Nil
  then show ?case by simp
next
  case (Cons ev evs)
  note ok' = buffer_ok_step [OF Cons.prems, of ev]
  show ?case
  proof (cases "\<exists>now. ev = GetResult now")
    case False
    then show ?thesis
      using Cons.IH [OF ok'] by (simp add: retrieved_other outputFrameId_step)
  next
    case True
    then obtain now where ev: "ev = GetResult now" by blast
    from getResult_cases [OF Cons.prems, of now] show ?thesis
    proof
      assume e: "IsEmpty (fst (getResult now (pipeline w))) \<and>
        snd (getResult now (pipeline w)) = pipeline w"
      then have "step ev w = w" by (simp add: ev)
      with e Cons.IH [OF ok'] show ?thesis by (simp add: ev retrieved_GetResult)
    next
      assume ne: "\<not> IsEmpty (fst (getResult now (pipeline w))) \<and>
        frameId (fst (getResult now (pipeline w))) = outputFrameId (pipeline w) \<and>
        outputFrameId (snd (getResult now (pipeline w))) = next_frame (outputFrameId (pipeline w))"
      then have o: "outputFrameId (pipeline (step ev w)) = next_frame (outputFrameId (pipeline w))"
        by (simp add: ev)
      show ?thesis
        using ne Cons.IH [OF ok'] 
        by (simp add: ev [symmetric] retrieved_GetResult [of now evs w, folded ev] o map_upt_shift del: upt_Suc)
    qed
  qed
qed

subsection \<open>Frame numbers as naturals\<close>

lemma sint_word_of_nat_small:
  assumes "m < 2 ^ 63"
  shows "sint (word_of_nat m :: int64_t) = int m"
proof -
  have "int m < 2 ^ 63" using assms by simp
  then show ?thesis
    by (simp add: signed_of_nat signed_take_bit_int_eq_self)
qed

lemma next_frame_of_nat:
  assumes "m < 2 ^ 63"
  shows "next_frame (word_of_nat m) = word_of_nat (Suc m mod 2 ^ 63)"
proof (cases "Suc m < 2 ^ 63")
  case True
  have s: "word_of_nat m + 1 = (word_of_nat (Suc m) :: int64_t)" by simp
  have "sint (word_of_nat (Suc m) :: int64_t) = int (Suc m)"
    using True by (rule sint_word_of_nat_small)
  then have n: "\<not> sint (word_of_nat (Suc m) :: int64_t) < 0" by simp
  have z: "Suc m mod 2 ^ 63 = Suc m" using True by (rule mod_less)
  show ?thesis unfolding next_frame_def s z using n by (simp only: if_False)
next
  case False
  with assms have m: "Suc m = 2 ^ 63" by simp
  have s: "word_of_nat m + 1 = (word_of_nat (Suc m) :: int64_t)" by simp
  have w: "(word_of_nat (Suc m) :: int64_t) = 2 ^ 63" using m by (simp only:) simp
  have n: "sint (2 ^ 63 :: int64_t) < 0" by simp
  have z: "Suc m mod 2 ^ 63 = 0" using m by (simp only:) simp
  show ?thesis unfolding next_frame_def s z w using n by (simp only: if_True) simp
qed

lemma frame_after_of_nat:
  "m < 2 ^ 63 \<Longrightarrow> frame_after i (word_of_nat m) = word_of_nat ((m + i) mod 2 ^ 63)"
proof (induction i arbitrary: m)
  case 0
  then have "m mod 2 ^ 63 = m" by (rule mod_less)
  then show ?case by (simp only: frame_after.simps add_0_right)
next
  case (Suc i)
  have "Suc m mod 2 ^ 63 < (2 ^ 63 :: nat)" by (rule mod_less_divisor) simp
  from Suc.IH [OF this] 
  have "frame_after i (word_of_nat (Suc m mod 2 ^ 63)) = (word_of_nat ((Suc m mod 2 ^ 63 + i) mod 2 ^ 63) :: int64_t)" .
  moreover have "(Suc m mod 2 ^ 63 + i) mod 2 ^ 63 = (m + Suc i) mod 2 ^ 63"
    by (simp only: mod_add_left_eq add_Suc add_Suc_right)
  ultimately show ?case
    by (simp only: frame_after.simps next_frame_of_nat [OF Suc.prems])
qed

lemma frame_after_0: "frame_after i 0 = word_of_nat (i mod 2 ^ 63)"
  using frame_after_of_nat [of 0 i] by simp

subsection \<open>Counting retrievals\<close>

lemma finite_inflight_step:
  assumes "finite (dom (inflight w))"
  shows "finite (dom (inflight (step ev w)))"
  using assms
  by (cases ev) (auto simp: submitRequest_def Let_def split: option.splits)

lemma pending_step_other:
  assumes fin: "finite (dom (inflight w))" and ev: "\<not> (\<exists>now. ev = GetResult now)"
  shows "pending (step ev w) \<le> pending w + (if is_Submit ev then 1 else 0)"
proof (cases ev)
  case Acquire
  then show ?thesis by (simp add: pending_def)
next
  case (Submit req now)
  have "card (dom ((inflight w)(req \<mapsto> c))) \<le> Suc (card (dom (inflight w)))" for c
    using fin by (simp add: card_insert_if)
  with Submit show ?thesis
    by (auto simp: pending_def submitRequest_def Let_def)
next
  case (Complete req outcome)
  show ?thesis
  proof (cases "inflight w req")
    case None
    with Complete show ?thesis by simp
  next
    case (Some c)
    then have "req \<in> dom (inflight w)" by blast
    with fin have c: "Suc (card (dom (inflight w) - {req})) = card (dom (inflight w))"
      by (rule card_Suc_Diff1)
    have "length (completedRequestResults (completionCallback c outcome (pipeline w)))
        \<le> Suc (length (completedRequestResults (pipeline w)))"
      using length_emplace_le
      by (auto simp: completionCallback_def Let_def split: sum.splits)
    with c Complete Some show ?thesis
      by (simp add: pending_def)
  qed
next
  case (GetResult now)
  with ev show ?thesis by simp
qed

lemma pending_step_GetResult:
  "pending (step (GetResult now) w) +
     (if IsEmpty (fst (getResult now (pipeline w))) then 0 else 1) \<le> pending w"
proof (cases "map_of (completedRequestResults (pipeline w)) (outputFrameId (pipeline w))")
  case None
  then show ?thesis
    by (simp add: pending_def getResult_def IsEmpty_def RequestResult_empty_def)
next
  case (Some r)
  from length_erase [OF Some] Some show ?thesis
    by (simp add: pending_def getResult_def Let_def)
qed

lemma retrieved_count:
  "finite (dom (inflight w)) \<Longrightarrow> length (retrieved evs w) \<le> pending w + submissions evs"
proof (induction evs arbitrary: w)
  case Nil
  then show ?case by simp
next
  case (Cons ev evs)
  note IH = Cons.IH [OF finite_inflight_step [OF Cons.prems, of ev]]
  show ?case
  proof (cases "\<exists>now. ev = GetResult now")
    case True
    then obtain now where ev: "ev = GetResult now" by blast
    have "submissions (ev # evs) = submissions evs" by (simp add: ev submissions_def)
    with IH pending_step_GetResult [of now w] show ?thesis
      unfolding ev retrieved_GetResult by (simp split: if_splits)
  next
    case False
    have "submissions (ev # evs) = submissions evs + (if is_Submit ev then 1 else 0)"
      by (simp add: submissions_def)
    with IH pending_step_other [OF Cons.prems False] show ?thesis
      by (simp add: retrieved_other [OF False])
  qed
qed

lemma system_new_facts:
  "buffer_ok (completedRequestResults (pipeline (system_new name pool)))"
  "finite (dom (inflight (system_new name pool)))"
  "pending (system_new name pool) = 0"
  "outputFrameId (pipeline (system_new name pool)) = 0"
  by (simp_all add: system_new_def PipelineBase_new_def buffer_ok_def pending_def)

text \<open>
  Claim C1. Take a new pipeline and any run: requests taken, submitted, completed (with
  a payload or with an exception) and results polled in any order whatever. The results that
  \<open>getResult\<close> returns non-empty, in call order, carry the frame numbers 0, 1, 2, ... with
  no gap and no repetition (the \<open>i\<close>-th is \<open>i\<close> modulo \<open>2 ^ 63\<close>, the counter's reset),
  and there are at most as many of them as submissions.
\<close>

theorem retrieved_in_submission_order:
  "map (\<lambda>x. frameId (snd x)) (retrieved evs (system_new name pool)) =
     map (\<lambda>i. word_of_nat (i mod 2 ^ 63)) [0..<length (retrieved evs (system_new name pool))]
   \<and> length (retrieved evs (system_new name pool)) \<le> submissions evs"
proof
  have "buffer_ok (completedRequestResults (pipeline (system_new name pool)))"
    by (rule system_new_facts)
  then show "map (\<lambda>x. frameId (snd x)) (retrieved evs (system_new name pool)) =
     map (\<lambda>i. word_of_nat (i mod 2 ^ 63)) [0..<length (retrieved evs (system_new name pool))]"
    by (simp add: retrieved_frames system_new_facts(4) frame_after_0)
next
  have "finite (dom (inflight (system_new name pool)))"
    by (rule system_new_facts)
  then have "length (retrieved evs (system_new name pool))
      \<le> pending (system_new name pool) + submissions evs"
    by (rule retrieved_count)
  then show "length (retrieved evs (system_new name pool)) \<le> submissions evs"
    by (simp add: system_new_facts(3))
qed

lemma five_frames_retrieved:
  "retrieved five_frames two_slots =
     [(4000000, \<lparr>frameId = 0, outputBlob = Some [0], startTime = 1000000\<rparr>),
      (4500000, \<lparr>frameId = 1, outputBlob = Some [1], startTime = 2000000\<rparr>),
      (7000000, \<lparr>frameId = 2, outputBlob = Some [2], startTime = 3500000\<rparr>),
      (7500000, \<lparr>frameId = 3, outputBlob = Some [3], startTime = 5000000\<rparr>),
      (9000000, \<lparr>frameId = 4, outputBlob = Some [4], startTime = 8000000\<rparr>)]"
  by (simp add: five_frames_def two_slots_def retrieved_def system_new_def
      PipelineBase_new_def submitRequest_def getResult_def completionCallback_def
      next_frame_def emplace_def setRequestIdle_def getIdleRequest_def
      getInUseRequestsCount_def Let_def IsEmpty_def RequestResult_empty_def)

theorem retrieved_in_submission_order_witness:
  "map (\<lambda>x. frameId (snd x)) (retrieved five_frames two_slots) = [0, 1, 2, 3, 4] \<and>
   length (retrieved five_frames two_slots) \<le> submissions five_frames"
proof -
  have l: "length (retrieved five_frames two_slots) = 5"
    by (simp add: five_frames_retrieved)
  have u: "[0..<5] = [0, 1, 2, 3, 4]"
    by (simp add: upt_rec)
  show ?thesis
    using retrieved_in_submission_order [of five_frames "''detection_out''" "[Idle, Idle]",
        folded two_slots_def]
    by (simp add: l u)
qed

section \<open>Faults\<close>

lemma callbackException_step:
  assumes "callbackException (pipeline w) = Some e"
  shows "callbackException (pipeline (step ev w)) = Some e"
  using assms
  by (cases ev)
    (auto simp: submitRequest_def getResult_def completionCallback_def Let_def
      split: option.splits sum.splits)

lemma callbackException_exec:
  "callbackException (pipeline w) = Some e \<Longrightarrow>
   callbackException (pipeline (exec evs w)) = Some e"
  by (induction evs arbitrary: w) (simp_all add: callbackException_step)

text \<open>
  Claim C3. When a completion is delivered that raised, the stored exception afterwards is
  the one that was stored before, if there was one, and otherwise the one just raised; and
  whatever happens later (further failing completions of the same or of other requests,
  successful ones, submissions, retrievals) leaves it as it is. So the first fault is kept
  and every later one is discarded.
\<close>

theorem first_fault_kept:
  assumes "inflight w req = Some c"
  shows "callbackException (pipeline (exec evs (step (Complete req (Inl e)) w))) =
           Some (case callbackException (pipeline w) of None \<Rightarrow> e | Some e0 \<Rightarrow> e0)"
proof -
  have "callbackException (pipeline (step (Complete req (Inl e)) w)) =
      Some (case callbackException (pipeline w) of None \<Rightarrow> e | Some e0 \<Rightarrow> e0)"
    using assms by (simp add: completionCallback_def split: option.splits)
  then show ?thesis by (rule callbackException_exec)
qed

lemma two_in_flight_reachable: "exec two_submits two_slots = two_in_flight"
  by (simp add: two_submits_def two_slots_def two_in_flight_def system_new_def
      PipelineBase_new_def submitRequest_def getIdleRequest_def getInUseRequestsCount_def
      next_frame_def Let_def)

theorem first_fault_kept_witness:
  "inflight two_in_flight 0 = Some \<lparr>frameStartTime = 1000000, frameID = 0, request = 0\<rparr> \<and>
   callbackException (pipeline
     (exec [Complete 1 (Inl (execution_fault 2)), GetResult 5000000]
        (step (Complete 0 (Inl (execution_fault 1))) two_in_flight))) =
     Some (execution_fault 1)"
proof -
  have h: "inflight two_in_flight 0 =
      Some \<lparr>frameStartTime = 1000000, frameID = 0, request = 0\<rparr>"
    by (simp add: two_in_flight_def)
  have n: "callbackException (pipeline two_in_flight) = None"
    by (simp add: two_in_flight_def)
  show ?thesis
    using h first_fault_kept [OF h,
        of "[Complete 1 (Inl (execution_fault 2)), GetResult 5000000]" "execution_fault 1"]
    by (simp add: n)
qed

section \<open>Waiting\<close>

lemma condVar_wait_pred:
  "fst (condVar_wait cs p) = waitPredicate (snd (condVar_wait cs p))"
  by (induction cs arbitrary: p) simp_all

lemma condVar_wait_first:
  "\<exists>n\<le>length cs. snd (condVar_wait cs p) = deliver (take n cs) p \<and>
      (\<forall>m<n. \<not> waitPredicate (deliver (take m cs) p))"
proof (induction cs arbitrary: p)
  case Nil
  show ?case by simp
next
  case (Cons c cs)
  show ?case
  proof (cases "waitPredicate p")
    case True
    then have "snd (condVar_wait (c # cs) p) = deliver (take 0 (c # cs)) p"
      by simp
    then show ?thesis by blast
  next
    case False
    let ?p = "completionCallback (fst c) (snd c) p"
    from Cons.IH [of ?p] obtain n where n: "n \<le> length cs"
      "snd (condVar_wait cs ?p) = deliver (take n cs) ?p"
      "\<forall>m<n. \<not> waitPredicate (deliver (take m cs) ?p)" by blast
    have "snd (condVar_wait (c # cs) p) = deliver (take (Suc n) (c # cs)) p"
      using False n(2) by simp
    moreover have "\<forall>m<Suc n. \<not> waitPredicate (deliver (take m (c # cs)) p)"
    proof (intro allI impI)
      fix m assume "m < Suc n"
      then show "\<not> waitPredicate (deliver (take m (c # cs)) p)"
        using False n(3) by (cases m) auto
    qed
    ultimately show ?thesis using n(1) by (intro exI [of _ "Suc n"]) simp
  qed
qed

lemma waitForData_state: "snd (waitForData cs p) = snd (condVar_wait cs p)"
  by (simp add: waitForData_def split: prod.splits bool.splits option.splits)

lemma waitForData_blocked:
  "fst (waitForData cs p) = Blocked \<longleftrightarrow> \<not> waitPredicate (snd (waitForData cs p))"
  using condVar_wait_pred [of cs p]
  by (auto simp: waitForData_def split: prod.splits bool.splits option.splits)

lemma waitForData_rethrows:
  "fst (waitForData cs p) = Rethrown e \<longleftrightarrow> callbackException (snd (waitForData cs p)) = Some e"
  using condVar_wait_pred [of cs p]
  by (auto simp: waitForData_def waitPredicate_def split: prod.splits bool.splits option.splits)

lemma all_le_Suc: "(\<forall>n\<le>Suc k. P n) \<longleftrightarrow> P 0 \<and> (\<forall>m\<le>k. P (Suc m))"
proof
  assume a: "\<forall>n\<le>Suc k. P n"
  then show "P 0 \<and> (\<forall>m\<le>k. P (Suc m))" by simp
next
  assume b: "P 0 \<and> (\<forall>m\<le>k. P (Suc m))"
  show "\<forall>n\<le>Suc k. P n"
  proof (intro allI impI)
    fix n assume "n \<le> Suc k"
    with b show "P n" by (cases n) simp_all
  qed
qed

lemma condVar_wait_blocked_iff:
  "\<not> fst (condVar_wait cs p) \<longleftrightarrow>
     (\<forall>n\<le>length cs. \<not> waitPredicate (deliver (take n cs) p))"
proof (induction cs arbitrary: p)
  case Nil
  show ?case by simp
next
  case (Cons c cs)
  show ?case
  proof (cases "waitPredicate p")
    case True
    then have "\<not> (\<forall>n\<le>length (c # cs). \<not> waitPredicate (deliver (take n (c # cs)) p))"
      by (auto intro: exI [of _ 0])
    with True show ?thesis by simp
  next
    case False
    have "(\<forall>n\<le>length (c # cs). \<not> waitPredicate (deliver (take n (c # cs)) p)) \<longleftrightarrow>
        (\<forall>m\<le>length cs. \<not> waitPredicate
           (deliver (take m cs) (completionCallback (fst c) (snd c) p)))"
      using False by (simp add: all_le_Suc)
    with False Cons.IH [of "completionCallback (fst c) (snd c) p"] show ?thesis by simp
  qed
qed

lemma condVar_wait_blocked_state:
  "\<not> fst (condVar_wait cs p) \<Longrightarrow> snd (condVar_wait cs p) = deliver cs p"
  by (induction cs arbitrary: p) (simp_all split: if_splits)

lemma waitForData_blocked_iff:
  "fst (waitForData cs p) = Blocked \<longleftrightarrow>
     (\<forall>n\<le>length cs. \<not> waitPredicate (deliver (take n cs) p))"
  using condVar_wait_blocked_iff [of cs p]
  by (auto simp: waitForData_def split: prod.splits bool.splits option.splits)

lemma waitForData_blocked_state:
  "fst (waitForData cs p) = Blocked \<Longrightarrow> snd (waitForData cs p) = deliver cs p"
  using condVar_wait_blocked_state [of cs p]
  by (auto simp: waitForData_def split: prod.splits bool.splits option.splits)

text \<open>
  Claim C4. \<open>waitForData\<close> blocks until the predicate (an exception is stored, or a slot
  is in use, or the buffer is not empty) holds. It is blocked for good exactly when the
  predicate holds neither at the start nor after any of the completions delivered
  meanwhile, all of which have then run. Otherwise it leaves the wait in the first state
  along those completions in which the predicate holds, and runs none of the later ones.
  When it leaves the wait with an exception stored, it rethrows exactly that exception;
  otherwise it returns normally. The outcome of \<open>submitRequest\<close> and the result of
  \<open>getResult\<close> do not depend on the stored exception: a submission either returns its frame
  number or throws its own \<^verbatim>\<open>std::invalid_argument\<close>, and \<open>getResult\<close> throws
  nothing.
\<close>

theorem waitForData_contract:
  "(fst (waitForData cs p) = Blocked \<longleftrightarrow>
      (\<forall>n\<le>length cs. \<not> waitPredicate (deliver (take n cs) p))) \<and>
   (fst (waitForData cs p) = Blocked \<longrightarrow> snd (waitForData cs p) = deliver cs p) \<and>
   (fst (waitForData cs p) = Blocked \<longleftrightarrow> \<not> waitPredicate (snd (waitForData cs p))) \<and>
   (\<exists>n\<le>length cs. snd (waitForData cs p) = deliver (take n cs) p \<and>
      (\<forall>m<n. \<not> waitPredicate (deliver (take m cs) p))) \<and>
   (\<forall>e. fst (waitForData cs p) = Rethrown e \<longleftrightarrow>
      callbackException (snd (waitForData cs p)) = Some e) \<and>
   (fst (waitForData cs p) = Returned \<longleftrightarrow>
      waitPredicate (snd (waitForData cs p)) \<and> callbackException (snd (waitForData cs p)) = None) \<and>
   fst (submitRequest req now (w\<lparr>pipeline := (pipeline w)\<lparr>callbackException := x\<rparr>\<rparr>)) =
     fst (submitRequest req now w) \<and>
   (fst (submitRequest req now w) = Inr (inputFrameId (pipeline w)) \<or>
    fst (submitRequest req now w) = Inl (invalid_argument ''outputName values is not set.'')) \<and>
   fst (getResult now (p\<lparr>callbackException := x\<rparr>)) = fst (getResult now p)"
proof (intro conjI)
  show "fst (waitForData cs p) = Blocked \<longleftrightarrow>
      (\<forall>n\<le>length cs. \<not> waitPredicate (deliver (take n cs) p))"
    by (rule waitForData_blocked_iff)
  show "fst (waitForData cs p) = Blocked \<longrightarrow> snd (waitForData cs p) = deliver cs p"
    by (simp add: waitForData_blocked_state)
  show "\<exists>n\<le>length cs. snd (waitForData cs p) = deliver (take n cs) p \<and>
      (\<forall>m<n. \<not> waitPredicate (deliver (take m cs) p))"
    using condVar_wait_first [of cs p] by (simp add: waitForData_state)
  show "fst (waitForData cs p) = Returned \<longleftrightarrow>
      waitPredicate (snd (waitForData cs p)) \<and> callbackException (snd (waitForData cs p)) = None"
    using condVar_wait_pred [of cs p]
    by (auto simp: waitForData_def split: prod.splits bool.splits option.splits)
qed (auto simp: waitForData_blocked waitForData_rethrows submitRequest_def getResult_def Let_def
      split: option.splits)

theorem waitForData_contract_witness:
  "fst (waitForData [] (pipeline two_slots)) = Blocked \<and>
   fst (waitForData [] (pipeline two_in_flight)) = Returned \<and>
   fst (waitForData
     [(\<lparr>frameStartTime = 1000000, frameID = 0, request = 0\<rparr>, Inl (execution_fault 1))]
     (pipeline two_slots)) = Rethrown (execution_fault 1) \<and>
   waitForData
     [(\<lparr>frameStartTime = 1000000, frameID = 0, request = 0\<rparr>, Inr [7]),
      (\<lparr>frameStartTime = 2000000, frameID = 1, request = 1\<rparr>, Inl (execution_fault 1))]
     (pipeline two_slots) =
     (Returned, (pipeline two_slots)\<lparr>completedRequestResults :=
        [(0, \<lparr>frameId = 0, outputBlob = Some [7], startTime = 1000000\<rparr>)]\<rparr>)"
  using waitForData_contract [of "[]" "pipeline two_slots"]
    waitForData_contract [of "[]" "pipeline two_in_flight"]
    waitForData_contract [of
      "[(\<lparr>frameStartTime = 1000000, frameID = 0, request = 0\<rparr>, Inl (execution_fault 1))]"
      "pipeline two_slots"]
    waitForData_contract [of
      "[(\<lparr>frameStartTime = 1000000, frameID = 0, request = 0\<rparr>, Inr [7]),
        (\<lparr>frameStartTime = 2000000, frameID = 1, request = 1\<rparr>, Inl (execution_fault 1))]"
      "pipeline two_slots"]
  by (simp add: waitForData_def waitPredicate_def two_slots_def two_in_flight_def
      system_new_def PipelineBase_new_def getInUseRequestsCount_def completionCallback_def
      emplace_def setRequestIdle_def Let_def)

section \<open>Performance counters\<close>

lemma getResult_found:
  assumes "buffer_ok (completedRequestResults p)" and "\<not> IsEmpty (fst (getResult now p))"
  shows "framesCount (perfInfo (snd (getResult now p))) = framesCount (perfInfo p) + 1"
    and "latencySum (perfInfo (snd (getResult now p))) =
           latencySum (perfInfo p) + (now - startTime (fst (getResult now p)))"
    and "FPS (perfInfo (snd (getResult now p))) =
           frame_rate (framesCount (perfInfo p) + 1)
             (now - PerformanceInfo.startTime (perfInfo p))"
    and "PerformanceInfo.startTime (perfInfo (snd (getResult now p))) =
           PerformanceInfo.startTime (perfInfo p)"
  using assms(2)
  by (auto simp: getResult_def Let_def IsEmpty_def RequestResult_empty_def frame_rate_def
      split: option.splits)

lemma getResult_not_found:
  assumes "buffer_ok (completedRequestResults p)" and "IsEmpty (fst (getResult now p))"
  shows "snd (getResult now p) = p"
  using getResult_cases [OF assms(1), of now] assms(2) by blast

lemma counters_step_other:
  assumes "\<not> (\<exists>now. ev = GetResult now)"
  shows "framesCount (perfInfo (pipeline (step ev w))) = framesCount (perfInfo (pipeline w))"
    and "latencySum (perfInfo (pipeline (step ev w))) = latencySum (perfInfo (pipeline w))"
    and "FPS (perfInfo (pipeline (step ev w))) = FPS (perfInfo (pipeline w))"
  using assms
  by (cases ev; auto simp: submitRequest_def completionCallback_def Let_def
        split: option.splits sum.splits)+

lemma startTime_step:
  assumes "PerformanceInfo.startTime (perfInfo (pipeline w)) \<noteq> 0"
  shows "PerformanceInfo.startTime (perfInfo (pipeline (step ev w))) =
         PerformanceInfo.startTime (perfInfo (pipeline w))"
  using assms
  by (cases ev)
    (auto simp: submitRequest_def completionCallback_def getResult_def Let_def
        split: option.splits sum.splits)

lemma counters_exec:
  "buffer_ok (completedRequestResults (pipeline w)) \<Longrightarrow>
   framesCount (perfInfo (pipeline (exec evs w))) =
     framesCount (perfInfo (pipeline w)) + int (length (retrieved evs w)) \<and>
   latencySum (perfInfo (pipeline (exec evs w))) =
     latencySum (perfInfo (pipeline w)) + latencies (retrieved evs w)"
proof (induction evs arbitrary: w)
  case Nil
  show ?case by (simp add: latencies_def)
next
  case (Cons ev evs)
  note IH = Cons.IH [OF buffer_ok_step [OF Cons.prems, of ev]]
  show ?case
  proof (cases "\<exists>now. ev = GetResult now")
    case False
    with IH show ?thesis
      by (simp add: retrieved_other counters_step_other)
  next
    case True
    then obtain now where ev: "ev = GetResult now" by blast
    show ?thesis
    proof (cases "IsEmpty (fst (getResult now (pipeline w)))")
      case True
      note nf = getResult_not_found [OF Cons.prems True]
      from IH True show ?thesis by (simp add: ev retrieved_GetResult nf)
    next
      case False
      from getResult_found(1,2) [OF Cons.prems False] IH False show ?thesis
        by (simp add: ev retrieved_GetResult latencies_def)
    qed
  qed
qed

lemma FPS_unchanged:
  "buffer_ok (completedRequestResults (pipeline w)) \<Longrightarrow> retrieved evs w = [] \<Longrightarrow>
   FPS (perfInfo (pipeline (exec evs w))) = FPS (perfInfo (pipeline w))"
proof (induction evs arbitrary: w)
  case Nil
  show ?case by simp
next
  case (Cons ev evs)
  note ok' = buffer_ok_step [OF Cons.prems(1), of ev]
  show ?case
  proof (cases "\<exists>now. ev = GetResult now")
    case False
    with Cons.IH [OF ok'] Cons.prems(2) show ?thesis
      by (simp add: retrieved_other counters_step_other)
  next
    case True
    then obtain now where ev: "ev = GetResult now" by blast
    from Cons.prems(2) have e: "IsEmpty (fst (getResult now (pipeline w)))"
      and r: "retrieved evs (step ev w) = []"
      by (auto simp: ev retrieved_GetResult split: if_splits)
    note nf = getResult_not_found [OF Cons.prems(1) e]
    from Cons.IH [OF ok' r] show ?thesis by (simp add: ev nf)
  qed
qed

lemma retrieved_length_step:
  "buffer_ok (completedRequestResults (pipeline w)) \<Longrightarrow>
   framesCount (perfInfo (pipeline w)) + int (length (retrieved (ev # evs) w)) =
   framesCount (perfInfo (pipeline (step ev w))) + int (length (retrieved evs (step ev w)))"
  using counters_exec [of w "[ev]"] 
  by (cases ev) (simp_all add: retrieved_def)

lemma FPS_started:
  "buffer_ok (completedRequestResults (pipeline w)) \<Longrightarrow>
   PerformanceInfo.startTime (perfInfo (pipeline w)) \<noteq> 0 \<Longrightarrow>
   retrieved evs w \<noteq> [] \<Longrightarrow>
   FPS (perfInfo (pipeline (exec evs w))) =
     frame_rate (framesCount (perfInfo (pipeline w)) + int (length (retrieved evs w)))
       (fst (last (retrieved evs w)) - PerformanceInfo.startTime (perfInfo (pipeline w)))"
proof (induction evs arbitrary: w)
  case Nil
  then show ?case by simp
next
  case (Cons ev evs)
  note ok' = buffer_ok_step [OF Cons.prems(1), of ev]
  note st' = startTime_step [OF Cons.prems(2), of ev]
  note len = retrieved_length_step [OF Cons.prems(1), of ev evs]
  show ?case
  proof (cases "retrieved evs (step ev w) = []")
    case False
    have "last (retrieved (ev # evs) w) = last (retrieved evs (step ev w))"
      using False by (cases ev) (simp_all add: retrieved_def)
    with Cons.IH [OF ok' _ False] st' Cons.prems(2) len show ?thesis
      by simp
  next
    case True
    with Cons.prems(3) obtain now where ev: "ev = GetResult now"
      and ne: "\<not> IsEmpty (fst (getResult now (pipeline w)))"
      and r: "retrieved (ev # evs) w = [(now, fst (getResult now (pipeline w)))]"
      by (cases ev) (auto simp: retrieved_def split: if_splits)
    have "FPS (perfInfo (pipeline (exec (ev # evs) w))) = FPS (perfInfo (pipeline (step ev w)))"
      using FPS_unchanged [OF ok' True] by simp
    also have "\<dots> = frame_rate (framesCount (perfInfo (pipeline w)) + 1)
             (now - PerformanceInfo.startTime (perfInfo (pipeline w)))"
      using getResult_found(3) [OF Cons.prems(1) ne] by (simp add: ev)
    finally show ?thesis by (simp add: r)
  qed
qed

lemma quiet_no_results:
  "quiet w \<Longrightarrow> outputName (pipeline w) = [] \<Longrightarrow> retrieved evs w = []"
proof (induction evs arbitrary: w)
  case Nil
  show ?case by simp
next
  case (Cons ev evs)
  have "quiet (step ev w) \<and> outputName (pipeline (step ev w)) = [] \<and>
        retrieved (ev # evs) w = retrieved evs (step ev w)"
    using Cons.prems
    by (cases ev)
      (auto simp: quiet_def submitRequest_def getResult_def Let_def retrieved_def IsEmpty_def
        RequestResult_empty_def)
  with Cons.IH [of "step ev w"] show ?case by simp
qed

lemma FPS_fresh:
  "quiet w \<Longrightarrow> first_submit_time evs = Some T \<Longrightarrow> T \<noteq> 0 \<Longrightarrow> retrieved evs w \<noteq> [] \<Longrightarrow>
   FPS (perfInfo (pipeline (exec evs w))) =
     frame_rate (framesCount (perfInfo (pipeline w)) + int (length (retrieved evs w)))
       (fst (last (retrieved evs w)) - T)"
proof (induction evs arbitrary: w)
  case Nil
  then show ?case by simp
next
  case (Cons ev evs)
  show ?case
  proof (cases ev)
    case (Submit req now)
    with Cons.prems(2) have T: "now = T" by simp
    have r: "retrieved (ev # evs) w = retrieved evs (step ev w)"
      by (simp add: Submit retrieved_def)
    show ?thesis
    proof (cases "outputName (pipeline w) = []")
      case True
      from quiet_no_results [OF Cons.prems(1) True, of "ev # evs"] Cons.prems(4)
      show ?thesis by simp
    next
      case False
      have ok': "buffer_ok (completedRequestResults (pipeline (step ev w)))"
        using Cons.prems(1) False
        by (simp add: Submit quiet_def submitRequest_def Let_def buffer_ok_def)
      have st: "PerformanceInfo.startTime (perfInfo (pipeline (step ev w))) = T"
        using Cons.prems(1) False
        by (simp add: Submit T quiet_def submitRequest_def Let_def)
      have fc: "framesCount (perfInfo (pipeline (step ev w))) = framesCount (perfInfo (pipeline w))"
        by (rule counters_step_other) (simp add: Submit)
      from Cons.prems(3) st
      have "PerformanceInfo.startTime (perfInfo (pipeline (step ev w))) \<noteq> 0" by simp
      from FPS_started [OF ok' this, of evs] Cons.prems(4) show ?thesis
        by (simp add: r st fc)
    qed
  next
    case Acquire
    with Cons.prems have "quiet (step ev w)" "first_submit_time evs = Some T"
      "retrieved evs (step ev w) \<noteq> []"
      "framesCount (perfInfo (pipeline (step ev w))) = framesCount (perfInfo (pipeline w))"
      by (simp_all add: quiet_def retrieved_def)
    with Cons.IH [of "step ev w"] Cons.prems(3) Acquire show ?thesis
      by (simp add: retrieved_def)
  next
    case (Complete req outcome)
    with Cons.prems have s: "step ev w = w" and "first_submit_time evs = Some T"
      by (simp_all add: quiet_def)
    with Cons.IH [of w] Cons.prems Complete show ?thesis
      by (simp add: retrieved_def)
  next
    case (GetResult now)
    from Cons.prems(1) have g: "getResult now (pipeline w) = (RequestResult_empty, pipeline w)"
      by (simp add: quiet_def getResult_def)
    with Cons.prems GetResult have "first_submit_time evs = Some T" "retrieved evs w \<noteq> []"
      by (simp_all add: retrieved_def IsEmpty_def RequestResult_empty_def)
    with Cons.IH [of w] Cons.prems(1,3) GetResult g show ?thesis
      by (simp add: retrieved_def IsEmpty_def RequestResult_empty_def)
  qed
qed

lemma system_new_quiet:
  "quiet (system_new name pool)"
  "framesCount (perfInfo (pipeline (system_new name pool))) = 0"
  "latencySum (perfInfo (pipeline (system_new name pool))) = 0"
  by (simp_all add: quiet_def system_new_def PipelineBase_new_def)

lemma latencies_of_int: "latencies rs = word_of_int (int_latencies rs)"
  by (induction rs) (simp_all add: latencies_def int_latencies_def)

lemma sint_latencies:
  assumes "- (2 ^ 63) \<le> int_latencies rs" and "int_latencies rs < 2 ^ 63"
  shows "sint (latencies rs) = int_latencies rs"
  using assms by (simp add: latencies_of_int signed_of_int signed_take_bit_int_eq_self)

subsection \<open>The rate as a rounded quotient\<close>

lemma round_half_even_int: "round_half_even (real_of_int j) = j"
  by (simp add: round_half_even_def)

lemma rounded_int_exact:
  assumes "0 \<le> k" and "k < 2 ^ 53"
  shows "rounded s (real_of_int k) = Finite s (real_of_int k)"
proof (cases "k = 0")
  case True
  then show ?thesis by (simp add: rounded_def)
next
  case False
  with assms(1) have pos: "0 < k" by simp
  define e where "e = bitlen k - 1"
  from pos have b1: "1 \<le> bitlen k"
    using bitlen_eq_zero_iff [of k] bitlen_nonneg [of k] by linarith
  from assms(2) have b2: "bitlen k \<le> 53"
    by (simp add: bitlen_le_iff_power)
  from b1 b2 have e: "0 \<le> e" "e \<le> 52" by (simp_all add: e_def)
  have bin: "binade (real_of_int k) = e"
    using pos by (simp add: binade_def e_def)
  define t where "t = nat (52 - e)"
  have ulp: "pow2 (max e (- 1022) - 52) = 1 / 2 ^ t"
  proof (cases "e = 52")
    case True
    then show ?thesis by (simp add: pow2_def t_def)
  next
    case False
    with e have "e - 52 < 0" by simp
    moreover from e have "max e (- 1022) = e" by simp
    ultimately show ?thesis by (simp add: pow2_def t_def)
  qed
  have q: "real_of_int k / (1 / 2 ^ t) = real_of_int (k * 2 ^ t)" by simp
  have y: "real_of_int (round_half_even (real_of_int k / (1 / 2 ^ t))) * (1 / 2 ^ t) = real_of_int k"
    unfolding q round_half_even_int by simp
  have "real_of_int k < 2 ^ 53" using assms(2) by (metis of_int_less_numeral_power_cancel_iff)
  also have "\<dots> < (2::real) ^ 1024" by simp
  finally have small: "\<not> (2::real) ^ 1024 \<le> real_of_int k" by simp
  from False show ?thesis
    unfolding rounded_def bin ulp Let_def y using small by simp
qed

lemma double_of_int_exact:
  assumes "0 \<le> k" and "k < 2 ^ 53"
  shows "double_of_int k = Finite Plus (real_of_int k)"
  using rounded_int_exact [OF assms, of Plus] assms(1) by (simp add: double_of_int_def)

lemma milliseconds_small: "duration_cast_milliseconds d < 2 ^ 53"
proof -
  have "sint d < 2 ^ 63" using sint_lt [of d] by simp
  then have "\<bar>sint d\<bar> div 1000000 < 2 ^ 53"
    using sint_ge [of d] by simp
  moreover have "sgn (sint d) * (\<bar>sint d\<bar> div 1000000) \<le> \<bar>sint d\<bar> div 1000000"
    by (cases "sint d" "0::int" rule: linorder_cases) (simp_all add: div_int_pos_iff)
  ultimately show ?thesis by (simp add: duration_cast_milliseconds_def)
qed

lemma frame_rate_nearest:
  assumes n: "0 \<le> n" "n * 1000 < 2 ^ 53" and d: "0 < duration_cast_milliseconds d"
  shows "frame_rate n d =
           rounded Plus (real_of_int (n * 1000) / real_of_int (duration_cast_milliseconds d))"
proof -
  from n have n53: "n < 2 ^ 53" by simp
  have 1: "double_of_int n = Finite Plus (real_of_int n)"
    by (rule double_of_int_exact [OF n(1) n53])
  have 2: "rounded Plus (real_of_int n * 1000) = Finite Plus (real_of_int (n * 1000))"
    using rounded_int_exact [of "n * 1000" Plus] n by simp
  have 3: "double_of_int (duration_cast_milliseconds d) =
      Finite Plus (real_of_int (duration_cast_milliseconds d))"
    using d by (intro double_of_int_exact milliseconds_small) simp
  from d show ?thesis
    by (simp add: frame_rate_def 1 2 3 sign_mul_def)
qed

text \<open>
  Claim C7. Take a new pipeline and any run, and let the non-empty results retrieved be
  \<open>K\<close> in number, with recorded start times \<open>t\<close> and retrieval times \<open>r\<close>. Then
  \<open>framesCount\<close> is \<open>K\<close>, and \<open>latencySum\<close> is the sum of the \<open>r - t\<close> in the 64-bit
  arithmetic of the clock, which is their sum over the integers whenever that fits in 64
  bits. \<open>FPS\<close> is \<open>K\<close> as a double times \<open>1000.0\<close>, divided by the whole milliseconds
  from the first submission to the last retrieval: where \<open>K * 1000\<close> is below \<open>2 ^ 53\<close> and
  that span is a millisecond or more, the double nearest to the quotient. The first
  submission's reading \<open>T\<close> is one of a steady clock, which counts from an epoch in its
  past: it is not the zero of a default-constructed time point.
\<close>

theorem performance_counters:
  "framesCount (perfInfo (pipeline (exec evs (system_new name pool)))) =
     int (length (retrieved evs (system_new name pool))) \<and>
   latencySum (perfInfo (pipeline (exec evs (system_new name pool)))) =
     latencies (retrieved evs (system_new name pool)) \<and>
   (- (2 ^ 63) \<le> int_latencies (retrieved evs (system_new name pool)) \<and>
    int_latencies (retrieved evs (system_new name pool)) < 2 ^ 63 \<longrightarrow>
      sint (latencySum (perfInfo (pipeline (exec evs (system_new name pool))))) =
        int_latencies (retrieved evs (system_new name pool))) \<and>
   (retrieved evs (system_new name pool) \<noteq> [] \<longrightarrow>
    (\<forall>T. first_submit_time evs = Some T \<and> T \<noteq> 0 \<longrightarrow>
      FPS (perfInfo (pipeline (exec evs (system_new name pool)))) =
        frame_rate (int (length (retrieved evs (system_new name pool))))
          (fst (last (retrieved evs (system_new name pool))) - T) \<and>
      (int (length (retrieved evs (system_new name pool))) * 1000 < 2 ^ 53 \<and>
       0 < duration_cast_milliseconds (fst (last (retrieved evs (system_new name pool))) - T)
       \<longrightarrow>
         FPS (perfInfo (pipeline (exec evs (system_new name pool)))) =
           rounded Plus
             (real_of_int (int (length (retrieved evs (system_new name pool))) * 1000) /
              real_of_int (duration_cast_milliseconds
                (fst (last (retrieved evs (system_new name pool))) - T))))))"
proof -
  let ?w = "system_new name pool"
  let ?rs = "retrieved evs ?w"
  let ?final = "perfInfo (pipeline (exec evs ?w))"
  have ok: "buffer_ok (completedRequestResults (pipeline ?w))"
    by (rule system_new_facts)
  from counters_exec [OF ok, of evs]
  have fc: "framesCount ?final = int (length ?rs)"
    and ls: "latencySum ?final = latencies ?rs"
    by (simp_all add: system_new_quiet)
  have li: "sint (latencySum ?final) = int_latencies ?rs"
    if "- (2 ^ 63) \<le> int_latencies ?rs \<and> int_latencies ?rs < 2 ^ 63"
    unfolding ls using that by (intro sint_latencies) simp_all
  have fps: "FPS ?final = frame_rate (int (length ?rs)) (fst (last ?rs) - T)"
    if "?rs \<noteq> []" and "first_submit_time evs = Some T \<and> T \<noteq> 0" for T
  proof -
    from that(2) have T1: "first_submit_time evs = Some T" and T2: "T \<noteq> 0" by simp_all
    from FPS_fresh [OF system_new_quiet(1) T1 T2 that(1)] show ?thesis
      by (simp add: system_new_quiet)
  qed
  have near: "FPS ?final =
      rounded Plus (real_of_int (int (length ?rs) * 1000) /
        real_of_int (duration_cast_milliseconds (fst (last ?rs) - T)))"
    if "?rs \<noteq> []" and "first_submit_time evs = Some T \<and> T \<noteq> 0"
      and "int (length ?rs) * 1000 < 2 ^ 53 \<and>
        0 < duration_cast_milliseconds (fst (last ?rs) - T)" for T
  proof -
    from that(3) have a: "int (length ?rs) * 1000 < 2 ^ 53"
      and b: "0 < duration_cast_milliseconds (fst (last ?rs) - T)" by simp_all
    have "frame_rate (int (length ?rs)) (fst (last ?rs) - T) =
        rounded Plus (real_of_int (int (length ?rs) * 1000) /
          real_of_int (duration_cast_milliseconds (fst (last ?rs) - T)))"
      by (rule frame_rate_nearest [OF _ a b]) simp
    with fps [OF that(1,2)] show ?thesis by simp
  qed
  from fc ls li fps near show ?thesis by blast
qed

theorem performance_counters_witness:
  "retrieved five_frames two_slots \<noteq> [] \<and>
   first_submit_time five_frames = Some 1000000 \<and>
   int_latencies (retrieved five_frames two_slots) = 12500000 \<and>
   framesCount (perfInfo (pipeline (exec five_frames two_slots))) = 5 \<and>
   latencySum (perfInfo (pipeline (exec five_frames two_slots))) = 12500000 \<and>
   sint (latencySum (perfInfo (pipeline (exec five_frames two_slots)))) = 12500000 \<and>
   duration_cast_milliseconds (9000000 - 1000000) = 8 \<and>
   FPS (perfInfo (pipeline (exec five_frames two_slots))) = Finite Plus 625"
proof -
  note r = five_frames_retrieved
  have t: "first_submit_time five_frames = Some 1000000"
    by (simp add: five_frames_def)
  have l: "int_latencies (retrieved five_frames two_slots) = 12500000"
    by (simp add: r int_latencies_def)
  have m: "duration_cast_milliseconds 8000000 = 8"
    by (simp add: duration_cast_milliseconds_def)
  have q: "rounded Plus 625 = Finite Plus 625"
    by (simp add: rounded_def binade_def pow2_def round_half_even_def Let_def compute_bitlen)
  show ?thesis
    using performance_counters [of five_frames "''detection_out''" "[Idle, Idle]",
        folded two_slots_def]
    by (auto simp: r t l [unfolded r] m q latencies_def)
qed

section \<open>A completion that raises\<close>

lemma not_max:
  fixes n :: int64_t
  assumes "sint n + 1 < 2 ^ 63"
  shows "n \<noteq> 0x7FFFFFFFFFFFFFFF"
proof
  assume "n = 0x7FFFFFFFFFFFFFFF"
  then have "sint n = 2 ^ 63 - 1" by simp
  with assms show False by simp
qed

lemma sint_next_frame:
  assumes "0 \<le> sint n" and "sint n + 1 < 2 ^ 63"
  shows "sint (next_frame n) = sint n + 1"
  using sint_succ [OF assms(1) not_max [OF assms(2)]] assms(1) by (simp add: next_frame_def)

lemma keys_erase_subset: "fst ` set (erase k m) \<subseteq> fst ` set m"
  using set_erase_subset [of k m] by blast

lemma submit_step:
  "outputName (pipeline w) \<noteq> [] \<Longrightarrow>
   inputFrameId (pipeline (step (Submit req now) w)) = next_frame (inputFrameId (pipeline w)) \<and>
   completedRequestResults (pipeline (step (Submit req now) w)) =
     completedRequestResults (pipeline w) \<and>
   inflight (step (Submit req now) w) =
     (inflight w)(req \<mapsto> \<lparr>frameStartTime = now, frameID = inputFrameId (pipeline w),
        request = req\<rparr>)"
  "outputName (pipeline w) = [] \<Longrightarrow>
   inputFrameId (pipeline (step (Submit req now) w)) = inputFrameId (pipeline w) \<and>
   completedRequestResults (pipeline (step (Submit req now) w)) =
     completedRequestResults (pipeline w) \<and>
   inflight (step (Submit req now) w) = inflight w"
  by (simp_all add: submitRequest_def Let_def)

lemma complete_step:
  "inflight w req = None \<Longrightarrow> step (Complete req outcome) w = w"
  "inflight w req = Some c \<Longrightarrow>
   inputFrameId (pipeline (step (Complete req outcome) w)) = inputFrameId (pipeline w) \<and>
   inflight (step (Complete req outcome) w) = (inflight w)(req := None) \<and>
   fst ` set (completedRequestResults (pipeline (step (Complete req outcome) w))) \<subseteq>
     insert (frameID c) (fst ` set (completedRequestResults (pipeline w)))"
  by (auto simp: completionCallback_def Let_def keys_emplace split: sum.splits)

lemma getResult_step:
  "inputFrameId (pipeline (step (GetResult now) w)) = inputFrameId (pipeline w) \<and>
   inflight (step (GetResult now) w) = inflight w \<and>
   fst ` set (completedRequestResults (pipeline (step (GetResult now) w))) \<subseteq>
     fst ` set (completedRequestResults (pipeline w))"
  using keys_erase_subset
  by (auto simp: getResult_def Let_def split: option.splits)

lemma frames_uniqueD:
  assumes "frames_unique w"
  shows "0 \<le> sint (inputFrameId (pipeline w))"
    and "\<And>k. k \<in> fst ` set (completedRequestResults (pipeline w)) \<Longrightarrow>
           sint k < sint (inputFrameId (pipeline w))"
    and "\<And>r c. inflight w r = Some c \<Longrightarrow> request c = r"
    and "\<And>r c. inflight w r = Some c \<Longrightarrow> sint (frameID c) < sint (inputFrameId (pipeline w))"
    and "\<And>r c. inflight w r = Some c \<Longrightarrow>
           frameID c \<notin> fst ` set (completedRequestResults (pipeline w))"
    and "\<And>r c r' c'. inflight w r = Some c \<Longrightarrow> inflight w r' = Some c' \<Longrightarrow> r' \<noteq> r \<Longrightarrow>
           frameID c' \<noteq> frameID c"
  using assms unfolding frames_unique_def by blast+

lemma frames_uniqueI:
  assumes "0 \<le> sint (inputFrameId (pipeline w))"
    and "\<And>k. k \<in> fst ` set (completedRequestResults (pipeline w)) \<Longrightarrow>
           sint k < sint (inputFrameId (pipeline w))"
    and "\<And>r c. inflight w r = Some c \<Longrightarrow> request c = r"
    and "\<And>r c. inflight w r = Some c \<Longrightarrow> sint (frameID c) < sint (inputFrameId (pipeline w))"
    and "\<And>r c. inflight w r = Some c \<Longrightarrow>
           frameID c \<notin> fst ` set (completedRequestResults (pipeline w))"
    and "\<And>r c r' c'. inflight w r = Some c \<Longrightarrow> inflight w r' = Some c' \<Longrightarrow> r' \<noteq> r \<Longrightarrow>
           frameID c' \<noteq> frameID c"
  shows "frames_unique w"
proof -
  have 2: "\<forall>k \<in> fst ` set (completedRequestResults (pipeline w)).
      sint k < sint (inputFrameId (pipeline w))"
    using assms(2) by (intro ballI)
  have 3: "\<forall>r c. inflight w r = Some c \<longrightarrow>
          request c = r \<and>
          sint (frameID c) < sint (inputFrameId (pipeline w)) \<and>
          frameID c \<notin> fst ` set (completedRequestResults (pipeline w)) \<and>
          (\<forall>r' c'. inflight w r' = Some c' \<and> r' \<noteq> r \<longrightarrow> frameID c' \<noteq> frameID c)"
  proof (intro allI impI conjI)
    fix r c
    assume a: "inflight w r = Some c"
    show "request c = r" using a by (rule assms(3))
    show "sint (frameID c) < sint (inputFrameId (pipeline w))" using a by (rule assms(4))
    show "frameID c \<notin> fst ` set (completedRequestResults (pipeline w))"
      using a by (rule assms(5))
    fix r' c'
    assume b: "inflight w r' = Some c' \<and> r' \<noteq> r"
    then have "inflight w r' = Some c'" and "r' \<noteq> r" by simp_all
    with a show "frameID c' \<noteq> frameID c" by (rule assms(6))
  qed
  from assms(1) 2 3 show ?thesis unfolding frames_unique_def by (intro conjI)
qed

lemma frames_unique_same:
  assumes u: "frames_unique w"
    and i: "inputFrameId (pipeline w') = inputFrameId (pipeline w)"
    and f: "inflight w' = inflight w"
    and k: "fst ` set (completedRequestResults (pipeline w')) \<subseteq>
            fst ` set (completedRequestResults (pipeline w))"
  shows "frames_unique w'"
proof (rule frames_uniqueI)
  show "0 \<le> sint (inputFrameId (pipeline w'))"
    using frames_uniqueD(1) [OF u] by (simp add: i)
  show "sint k < sint (inputFrameId (pipeline w'))"
    if "k \<in> fst ` set (completedRequestResults (pipeline w'))" for k
  proof -
    from that k have "k \<in> fst ` set (completedRequestResults (pipeline w))" by (rule rev_subsetD)
    then show ?thesis using frames_uniqueD(2) [OF u, of k] by (simp add: i)
  qed
  show "request c = r" if "inflight w' r = Some c" for r c
    using frames_uniqueD(3) [OF u, of r c] that by (simp add: f)
  show "sint (frameID c) < sint (inputFrameId (pipeline w'))" if "inflight w' r = Some c" for r c
    using frames_uniqueD(4) [OF u, of r c] that by (simp add: f i)
  show "frameID c \<notin> fst ` set (completedRequestResults (pipeline w'))"
    if "inflight w' r = Some c" for r c
  proof
    assume "frameID c \<in> fst ` set (completedRequestResults (pipeline w'))"
    with k have "frameID c \<in> fst ` set (completedRequestResults (pipeline w))" by (rule subsetD)
    with frames_uniqueD(5) [OF u, of r c] that show False by (simp add: f)
  qed
  show "frameID c' \<noteq> frameID c"
    if "inflight w' r = Some c" "inflight w' r' = Some c'" "r' \<noteq> r" for r c r' c'
    using frames_uniqueD(6) [OF u, of r c r' c'] that by (simp add: f)
qed

lemma frames_unique_submit:
  assumes u: "frames_unique w"
    and lt: "sint (inputFrameId (pipeline w)) + 1 < 2 ^ 63"
    and i: "inputFrameId (pipeline w') = next_frame (inputFrameId (pipeline w))"
    and f: "inflight w' = (inflight w)(req \<mapsto> \<lparr>frameStartTime = now,
              frameID = inputFrameId (pipeline w), request = req\<rparr>)"
    and k: "completedRequestResults (pipeline w') = completedRequestResults (pipeline w)"
  shows "frames_unique w'"
proof (rule frames_uniqueI)
  note nn = frames_uniqueD(1) [OF u]
  note sn = sint_next_frame [OF nn lt]
  show "0 \<le> sint (inputFrameId (pipeline w'))"
    using nn by (simp add: i sn)
  show "sint k < sint (inputFrameId (pipeline w'))"
    if "k \<in> fst ` set (completedRequestResults (pipeline w'))" for k
    using frames_uniqueD(2) [OF u, of k] that by (simp add: i sn k)
  show "request c = r" if "inflight w' r = Some c" for r c
    using frames_uniqueD(3) [OF u, of r c] that by (auto simp: f split: if_splits)
  show "sint (frameID c) < sint (inputFrameId (pipeline w'))" if "inflight w' r = Some c" for r c
    using frames_uniqueD(4) [OF u, of r c] that by (auto simp: f i sn split: if_splits)
  show "frameID c \<notin> fst ` set (completedRequestResults (pipeline w'))"
    if "inflight w' r = Some c" for r c
  proof (cases "r = req")
    case True
    with that have "frameID c = inputFrameId (pipeline w)" by (auto simp: f)
    with frames_uniqueD(2) [OF u, of "frameID c"] show ?thesis by (auto simp: k)
  next
    case False
    with frames_uniqueD(5) [OF u, of r c] that show ?thesis by (simp add: f k)
  qed
  show "frameID c' \<noteq> frameID c"
    if "inflight w' r = Some c" "inflight w' r' = Some c'" "r' \<noteq> r" for r c r' c'
  proof (cases "r = req")
    case True
    with that have "frameID c = inputFrameId (pipeline w)" "inflight w r' = Some c'"
      by (auto simp: f)
    with frames_uniqueD(4) [OF u, of r' c'] show ?thesis by auto
  next
    case False
    note rf = this
    show ?thesis
    proof (cases "r' = req")
      case True
      with that rf have "frameID c' = inputFrameId (pipeline w)" "inflight w r = Some c"
        by (auto simp: f)
      with frames_uniqueD(4) [OF u, of r c] show ?thesis by auto
    next
      case False
      with rf that frames_uniqueD(6) [OF u, of r c r' c'] show ?thesis by (simp add: f)
    qed
  qed
qed

lemma frames_unique_complete:
  assumes u: "frames_unique w"
    and c: "inflight w req = Some c"
    and i: "inputFrameId (pipeline w') = inputFrameId (pipeline w)"
    and f: "inflight w' = (inflight w)(req := None)"
    and k: "fst ` set (completedRequestResults (pipeline w')) \<subseteq>
            insert (frameID c) (fst ` set (completedRequestResults (pipeline w)))"
  shows "frames_unique w'"
proof (rule frames_uniqueI)
  show "0 \<le> sint (inputFrameId (pipeline w'))"
    using frames_uniqueD(1) [OF u] by (simp add: i)
  show "sint k < sint (inputFrameId (pipeline w'))"
    if "k \<in> fst ` set (completedRequestResults (pipeline w'))" for k
  proof -
    from that k have "k \<in> insert (frameID c) (fst ` set (completedRequestResults (pipeline w)))"
      by (rule rev_subsetD)
    then have "k = frameID c \<or> k \<in> fst ` set (completedRequestResults (pipeline w))" by simp
    then show ?thesis
      using frames_uniqueD(2) [OF u, of k] frames_uniqueD(4) [OF u c] by (auto simp: i)
  qed
  show "request c = r" if "inflight w' r = Some c" for r c
    using frames_uniqueD(3) [OF u, of r c] that by (auto simp: f split: if_splits)
  show "sint (frameID c) < sint (inputFrameId (pipeline w'))" if "inflight w' r = Some c" for r c
    using frames_uniqueD(4) [OF u, of r c] that by (auto simp: f i split: if_splits)
  show "frameID c' \<notin> fst ` set (completedRequestResults (pipeline w'))"
    if "inflight w' r = Some c'" for r c'
  proof -
    from that have r: "r \<noteq> req" "inflight w r = Some c'" by (auto simp: f split: if_splits)
    show ?thesis
    proof
      assume "frameID c' \<in> fst ` set (completedRequestResults (pipeline w'))"
      with k have "frameID c' \<in> insert (frameID c) (fst ` set (completedRequestResults (pipeline w)))"
        by (rule subsetD)
      then have "frameID c' = frameID c \<or> frameID c' \<in> fst ` set (completedRequestResults (pipeline w))"
        by simp
      with frames_uniqueD(6) [OF u c r(2) r(1)] frames_uniqueD(5) [OF u r(2)]
      show False by simp
    qed
  qed
  show "frameID c' \<noteq> frameID c"
    if "inflight w' r = Some c" "inflight w' r' = Some c'" "r' \<noteq> r" for r c r' c'
    using frames_uniqueD(6) [OF u, of r c r' c'] that by (auto simp: f split: if_splits)
qed

lemma frames_unique_step:
  assumes u: "frames_unique w" and nw: "no_wrap (ev # evs) w"
  shows "frames_unique (step ev w) \<and> no_wrap evs (step ev w)"
proof (cases ev)
  case Acquire
  have "frames_unique (step ev w)"
    unfolding Acquire by (rule frames_unique_same [OF u]) simp_all
  moreover have "no_wrap evs (step ev w)"
    using nw by (simp add: Acquire no_wrap_def submissions_def)
  ultimately show ?thesis by simp
next
  case (Submit req now)
  show ?thesis
  proof (cases "outputName (pipeline w) = []")
    case True
    note s = submit_step(2) [OF True, of req now]
    have "frames_unique (step ev w)"
      unfolding Submit by (rule frames_unique_same [OF u]) (simp_all add: s del: step.simps)
    moreover have "no_wrap evs (step ev w)"
      using nw unfolding Submit no_wrap_def s [THEN conjunct1] by (simp add: submissions_def)
    ultimately show ?thesis by simp
  next
    case False
    note s = submit_step(1) [OF False, of req now]
    note nn = frames_uniqueD(1) [OF u]
    from nw have lt: "sint (inputFrameId (pipeline w)) + 1 < 2 ^ 63"
      by (simp add: no_wrap_def submissions_def Submit)
    note sn = sint_next_frame [OF nn lt]
    have "no_wrap evs (step ev w)"
      using nw unfolding Submit no_wrap_def s [THEN conjunct1] sn
      by (simp add: submissions_def)
    moreover have "frames_unique (step ev w)"
      unfolding Submit
      by (rule frames_unique_submit [OF u lt, of _ req now]) (simp_all add: s del: step.simps)
    ultimately show ?thesis by simp
  qed
next
  case (Complete req outcome)
  show ?thesis
  proof (cases "inflight w req")
    case None
    with u nw show ?thesis
      by (simp add: Complete complete_step(1) no_wrap_def submissions_def)
  next
    case (Some c)
    note s = complete_step(2) [OF Some, of outcome]
    have "no_wrap evs (step ev w)"
      using nw unfolding Complete no_wrap_def s [THEN conjunct1]
      by (simp add: submissions_def)
    moreover have "frames_unique (step ev w)"
      unfolding Complete
      by (rule frames_unique_complete [OF u Some]) (simp_all add: s del: step.simps)
    ultimately show ?thesis by simp
  qed
next
  case (GetResult now)
  note s = getResult_step [of now w]
  have "no_wrap evs (step ev w)"
    using nw unfolding GetResult no_wrap_def s [THEN conjunct1]
    by (simp add: submissions_def)
  moreover have "frames_unique (step ev w)"
    unfolding GetResult
    by (rule frames_unique_same [OF u]) (simp_all add: s del: step.simps)
  ultimately show ?thesis by simp
qed

lemma frame_dead_step:
  assumes d: "frame_dead k w" and nw: "no_wrap (ev # evs) w"
  shows "frame_dead k (step ev w) \<and> no_wrap evs (step ev w)"
proof -
  from d have nn: "0 \<le> sint (inputFrameId (pipeline w))"
    and lt: "sint k < sint (inputFrameId (pipeline w))"
    and nk: "k \<notin> fst ` set (completedRequestResults (pipeline w))"
    and nf: "\<And>r c. inflight w r = Some c \<Longrightarrow> frameID c \<noteq> k"
    unfolding frame_dead_def by blast+
  show ?thesis
  proof (cases ev)
    case Acquire
    with d nw show ?thesis
      by (simp add: frame_dead_def no_wrap_def submissions_def)
  next
    case (Submit req now)
    show ?thesis
    proof (cases "outputName (pipeline w) = []")
      case True
      note s = submit_step(2) [OF True, of req now]
      from d nw show ?thesis
        unfolding Submit frame_dead_def no_wrap_def s [THEN conjunct1]
          s [THEN conjunct2, THEN conjunct1] s [THEN conjunct2, THEN conjunct2]
        by (simp add: submissions_def)
    next
      case False
      note s = submit_step(1) [OF False, of req now]
      from nw have b: "sint (inputFrameId (pipeline w)) + 1 < 2 ^ 63"
        by (simp add: no_wrap_def submissions_def Submit)
      note sn = sint_next_frame [OF nn b]
      have "no_wrap evs (step ev w)"
        using nw unfolding Submit no_wrap_def s [THEN conjunct1] sn
        by (simp add: submissions_def)
      moreover have "frame_dead k (step ev w)"
        unfolding Submit frame_dead_def s [THEN conjunct1]
          s [THEN conjunct2, THEN conjunct1] s [THEN conjunct2, THEN conjunct2] sn
      proof (intro conjI allI impI)
        show "0 \<le> sint (inputFrameId (pipeline w)) + 1" using nn by simp
        show "sint k < sint (inputFrameId (pipeline w)) + 1" using lt by simp
        show "k \<notin> fst ` set (completedRequestResults (pipeline w))" by (rule nk)
        fix r c
        assume "((inflight w)(req \<mapsto> \<lparr>frameStartTime = now,
            frameID = inputFrameId (pipeline w), request = req\<rparr>)) r = Some c"
        then have "frameID c = inputFrameId (pipeline w) \<or> inflight w r = Some c"
          by (auto split: if_splits)
        then show "frameID c \<noteq> k" using lt nf [of r c] by auto
      qed
      ultimately show ?thesis by simp
    qed
  next
    case (Complete req outcome)
    show ?thesis
    proof (cases "inflight w req")
      case None
      with d nw show ?thesis
        by (simp add: Complete complete_step(1) no_wrap_def submissions_def)
    next
      case (Some c)
      note s = complete_step(2) [OF Some, of outcome]
      have "no_wrap evs (step ev w)"
        using nw unfolding Complete no_wrap_def s [THEN conjunct1]
        by (simp add: submissions_def)
      moreover have "frame_dead k (step ev w)"
        unfolding Complete frame_dead_def s [THEN conjunct1]
          s [THEN conjunct2, THEN conjunct1]
      proof (intro conjI allI impI)
        show "0 \<le> sint (inputFrameId (pipeline w))" by (rule nn)
        show "sint k < sint (inputFrameId (pipeline w))" by (rule lt)
        show "k \<notin> fst ` set (completedRequestResults (pipeline (step (Complete req outcome) w)))"
        proof
          assume "k \<in> fst ` set (completedRequestResults (pipeline (step (Complete req outcome) w)))"
          with s [THEN conjunct2, THEN conjunct2]
          have "k \<in> insert (frameID c) (fst ` set (completedRequestResults (pipeline w)))"
            by (rule subsetD)
          with nk nf [OF Some] show False by simp
        qed
        fix r c'
        assume "((inflight w)(req := None)) r = Some c'"
        then have "inflight w r = Some c'" by (auto split: if_splits)
        then show "frameID c' \<noteq> k" by (rule nf)
      qed
      ultimately show ?thesis by simp
    qed
  next
    case (GetResult now)
    note s = getResult_step [of now w]
    have "no_wrap evs (step ev w)"
      using nw unfolding GetResult no_wrap_def s [THEN conjunct1]
      by (simp add: submissions_def)
    moreover have "frame_dead k (step ev w)"
      unfolding GetResult frame_dead_def s [THEN conjunct1]
        s [THEN conjunct2, THEN conjunct1]
    proof (intro conjI allI impI)
      show "0 \<le> sint (inputFrameId (pipeline w))" by (rule nn)
      show "sint k < sint (inputFrameId (pipeline w))" by (rule lt)
      show "k \<notin> fst ` set (completedRequestResults (pipeline (step (GetResult now) w)))"
      proof
        assume "k \<in> fst ` set (completedRequestResults (pipeline (step (GetResult now) w)))"
        with s [THEN conjunct2, THEN conjunct2]
        have "k \<in> fst ` set (completedRequestResults (pipeline w))"
          by (rule subsetD)
        with nk show False by simp
      qed
      fix r c'
      assume "inflight w r = Some c'"
      then show "frameID c' \<noteq> k" by (rule nf)
    qed
    ultimately show ?thesis by simp
  qed
qed

lemma frame_dead_exec:
  "frame_dead k w \<Longrightarrow> no_wrap evs w \<Longrightarrow> frame_dead k (exec evs w)"
proof (induction evs arbitrary: w)
  case Nil
  then show ?case by simp
next
  case (Cons ev evs)
  from frame_dead_step [OF Cons.prems]
  have "frame_dead k (step ev w)" and "no_wrap evs (step ev w)" by blast+
  then have "frame_dead k (exec evs (step ev w))" by (rule Cons.IH)
  then show ?case by (simp only: exec.simps)
qed

lemma frame_dead_lookup:
  "frame_dead k w \<Longrightarrow> map_of (completedRequestResults (pipeline w)) k = None"
  by (simp add: frame_dead_def map_of_eq_None_iff)

lemma frame_dead_retrieved:
  "frame_dead k w \<Longrightarrow> no_wrap evs w \<Longrightarrow>
   buffer_ok (completedRequestResults (pipeline w)) \<Longrightarrow>
   \<forall>x \<in> set (retrieved evs w). frameId (snd x) \<noteq> k"
proof (induction evs arbitrary: w)
  case Nil
  show ?case by simp
next
  case (Cons ev evs)
  from frame_dead_step [OF Cons.prems(1,2)]
  have d': "frame_dead k (step ev w)" and nw': "no_wrap evs (step ev w)" by blast+
  note IH = Cons.IH [OF d' nw' buffer_ok_step [OF Cons.prems(3)]]
  show ?case
  proof (cases "\<exists>now. ev = GetResult now")
    case False
    with IH show ?thesis by (simp add: retrieved_other)
  next
    case True
    then obtain now where ev: "ev = GetResult now" by blast
    have "frameId (fst (getResult now (pipeline w))) \<noteq> k"
      if "\<not> IsEmpty (fst (getResult now (pipeline w)))"
    proof -
      from getResult_cases [OF Cons.prems(3), of now] that
      have f: "frameId (fst (getResult now (pipeline w))) = outputFrameId (pipeline w)" by blast
      from that have "map_of (completedRequestResults (pipeline w)) (outputFrameId (pipeline w)) \<noteq> None"
        by (auto simp: getResult_def IsEmpty_def RequestResult_empty_def split: option.splits)
      with frame_dead_lookup [OF Cons.prems(1)] have "outputFrameId (pipeline w) \<noteq> k" by auto
      with f show ?thesis by simp
    qed
    with IH show ?thesis
      unfolding ev retrieved_GetResult by (auto split: if_splits)
  qed
qed

lemma frame_dead_stuck:
  "frame_dead k w \<Longrightarrow> no_wrap evs w \<Longrightarrow> outputFrameId (pipeline w) = k \<Longrightarrow>
   (\<forall>x \<in> set (returned evs w). snd x = RequestResult_empty) \<and>
   outputFrameId (pipeline (exec evs w)) = k"
proof (induction evs arbitrary: w)
  case Nil
  then show ?case by simp
next
  case (Cons ev evs)
  from frame_dead_step [OF Cons.prems(1,2)]
  have d': "frame_dead k (step ev w)" and nw': "no_wrap evs (step ev w)" by blast+
  show ?case
  proof (cases "\<exists>now. ev = GetResult now")
    case False
    then have o: "outputFrameId (pipeline (step ev w)) = k"
      using Cons.prems(3) by (simp add: outputFrameId_step)
    from False have "returned (ev # evs) w = returned evs (step ev w)"
      by (cases ev) simp_all
    with Cons.IH [OF d' nw' o] show ?thesis by simp
  next
    case True
    then obtain now where ev: "ev = GetResult now" by blast
    from frame_dead_lookup [OF Cons.prems(1)] Cons.prems(3)
    have g: "getResult now (pipeline w) = (RequestResult_empty, pipeline w)"
      by (simp add: getResult_def)
    then have o: "outputFrameId (pipeline (step ev w)) = k"
      using Cons.prems(3) by (simp add: ev)
    from Cons.IH [OF d' nw' o] g show ?thesis by (simp add: ev)
  qed
qed

lemma frame_dead_after_fault:
  assumes u: "frames_unique w" and c: "inflight w req = Some c"
  shows "frame_dead (frameID c) (step (Complete req (Inl e)) w)"
proof -
  note s = complete_step(2) [OF c, of "Inl e"]
  have b: "completedRequestResults (pipeline (step (Complete req (Inl e)) w)) =
      completedRequestResults (pipeline w)"
    using c by (simp add: completionCallback_def)
  show ?thesis
    unfolding frame_dead_def s [THEN conjunct1] s [THEN conjunct2, THEN conjunct1] b
  proof (intro conjI allI impI)
    show "0 \<le> sint (inputFrameId (pipeline w))" by (rule frames_uniqueD(1) [OF u])
    show "sint (frameID c) < sint (inputFrameId (pipeline w))"
      by (rule frames_uniqueD(4) [OF u c])
    show "frameID c \<notin> fst ` set (completedRequestResults (pipeline w))"
      by (rule frames_uniqueD(5) [OF u c])
    fix r c'
    assume "((inflight w)(req := None)) r = Some c'"
    then have "inflight w r = Some c'" "r \<noteq> req" by (auto split: if_splits)
    with c show "frameID c' \<noteq> frameID c" by (rule frames_uniqueD(6) [OF u])
  qed
qed

lemma frames_unique_exec_append:
  "frames_unique w \<Longrightarrow> no_wrap (evs @ evs') w \<Longrightarrow>
   frames_unique (exec evs w) \<and> no_wrap evs' (exec evs w)"
proof (induction evs arbitrary: w)
  case Nil
  then show ?case by simp
next
  case (Cons ev evs)
  from Cons.prems(2) have "no_wrap (ev # (evs @ evs')) w" by simp
  from frames_unique_step [OF Cons.prems(1) this]
  have "frames_unique (step ev w)" and "no_wrap (evs @ evs') (step ev w)" by blast+
  then have "frames_unique (exec evs (step ev w)) \<and> no_wrap evs' (exec evs (step ev w))"
    by (rule Cons.IH)
  then show ?case by (simp only: exec.simps)
qed

lemma buffer_ok_exec:
  "buffer_ok (completedRequestResults (pipeline w)) \<Longrightarrow>
   buffer_ok (completedRequestResults (pipeline (exec evs w)))"
  by (induction evs arbitrary: w) (simp_all add: buffer_ok_step del: step.simps)

lemma system_new_unique: "frames_unique (system_new name pool)"
  by (simp add: frames_unique_def system_new_def PipelineBase_new_def)

lemma getIdleRequest_keeps:
  assumes "r < length pool" and "pool ! r = InUse"
  shows "r < length (snd (getIdleRequest pool)) \<and> snd (getIdleRequest pool) ! r = InUse"
proof (cases "firstIdle pool")
  case None
  with assms show ?thesis by (simp add: getIdleRequest_def)
next
  case (Some i)
  have "pool[i := InUse] ! r = InUse"
    using assms by (cases "i = r") simp_all
  with assms Some show ?thesis by (simp add: getIdleRequest_def)
qed

lemma setRequestIdle_other:
  assumes "r < length pool" and "pool ! r = InUse" and "r' \<noteq> r"
  shows "r < length (setRequestIdle r' pool) \<and> setRequestIdle r' pool ! r = InUse"
  using assms by (simp add: setRequestIdle_def)

lemma slot_held_step:
  assumes h: "slot_held r w" and ev: "\<not> (\<exists>now. ev = Submit r now)"
  shows "slot_held r (step ev w)"
proof -
  from h have len: "r < length (requestsPool (pipeline w))"
    and use: "requestsPool (pipeline w) ! r = InUse"
    and nf: "inflight w r = None"
    and rq: "\<And>r' c. inflight w r' = Some c \<Longrightarrow> request c = r'"
    unfolding slot_held_def slot_in_use_def by blast+
  show ?thesis
  proof (cases ev)
    case Acquire
    from getIdleRequest_keeps [OF len use] h show ?thesis
      by (simp add: Acquire slot_held_def slot_in_use_def)
  next
    case (Submit req now)
    with ev have "req \<noteq> r" by simp
    with h show ?thesis
      by (simp add: Submit slot_held_def slot_in_use_def submitRequest_def Let_def)
  next
    case (Complete req outcome)
    show ?thesis
    proof (cases "inflight w req")
      case None
      with h show ?thesis by (simp add: Complete)
    next
      case (Some c)
      with nf have ne: "req \<noteq> r" by auto
      from rq [OF Some] have rc: "request c = req" .
      have p: "r < length (requestsPool (completionCallback c outcome (pipeline w))) \<and>
          requestsPool (completionCallback c outcome (pipeline w)) ! r = InUse"
        using setRequestIdle_other [OF len use ne] len use
        by (cases outcome) (simp_all add: completionCallback_def Let_def rc)
      have "\<And>r' c'. ((inflight w)(req := None)) r' = Some c' \<Longrightarrow> request c' = r'"
        using rq by (auto split: if_splits)
      with p nf Some show ?thesis
        by (simp add: Complete slot_held_def slot_in_use_def)
    qed
  next
    case (GetResult now)
    with h show ?thesis
      by (auto simp: slot_held_def slot_in_use_def getResult_def Let_def split: option.splits)
  qed
qed

lemma slot_held_exec:
  "slot_held r w \<Longrightarrow> \<forall>now. Submit r now \<notin> set evs \<Longrightarrow> slot_held r (exec evs w)"
proof (induction evs arbitrary: w)
  case Nil
  then show ?case by simp
next
  case (Cons ev evs)
  from Cons.prems(2) have "\<not> (\<exists>now. ev = Submit r now)" by auto
  with Cons.prems(1) have "slot_held r (step ev w)" by (rule slot_held_step)
  moreover from Cons.prems(2) have "\<forall>now. Submit r now \<notin> set evs" by simp
  ultimately have "slot_held r (exec evs (step ev w))" by (rule Cons.IH)
  then show ?case by (simp only: exec.simps)
qed

text \<open>
  Claim C8, as the code has it. Take any state a new pipeline reaches, a request in flight
  in it, and let its completion raise. The lambda stores an exception and returns: pool,
  buffer, both frame counters and the performance counters are what they were, the buffer
  still holds each key once with its own frame number, and the slot has not been set idle.
  The slot stays in use until the consumer submits that request again. Until the submission
  counter has gone round, which takes \<open>2 ^ 63\<close> submissions, no result is deposited under
  the frame number of the failed unit, no \<open>getResult\<close> returns a result with that number,
  and once \<open>outputFrameId\<close> stands at it, every \<open>getResult\<close> returns the empty result and
  \<open>outputFrameId\<close> stays there.
\<close>

theorem faulted_slot_kept:
  assumes w: "w = exec evs1 (system_new name pool)"
    and c: "inflight w req = Some c"
    and nw: "submissions evs1 + submissions evs2 < 2 ^ 63"
  shows "(let w' = step (Complete req (Inl e)) w in
           callbackException (pipeline w') \<noteq> None \<and>
           requestsPool (pipeline w') = requestsPool (pipeline w) \<and>
           completedRequestResults (pipeline w') = completedRequestResults (pipeline w) \<and>
           inputFrameId (pipeline w') = inputFrameId (pipeline w) \<and>
           outputFrameId (pipeline w') = outputFrameId (pipeline w) \<and>
           perfInfo (pipeline w') = perfInfo (pipeline w) \<and>
           buffer_ok (completedRequestResults (pipeline w')) \<and>
           request c = req \<and>
           (slot_in_use req w \<and> (\<forall>now. Submit req now \<notin> set evs2) \<longrightarrow>
              slot_in_use req (exec evs2 w')) \<and>
           frameID c \<notin> fst ` set (completedRequestResults (pipeline (exec evs2 w'))) \<and>
           (\<forall>x \<in> set (retrieved evs2 w'). frameId (snd x) \<noteq> frameID c) \<and>
           (outputFrameId (pipeline w) = frameID c \<longrightarrow>
              (\<forall>x \<in> set (returned evs2 w'). snd x = RequestResult_empty) \<and>
              outputFrameId (pipeline (exec evs2 w')) = frameID c))"
proof -
  define w' where "w' = step (Complete req (Inl e)) w"
  have nw0: "no_wrap (evs1 @ evs2) (system_new name pool)"
    using nw by (simp add: no_wrap_def submissions_def system_new_def PipelineBase_new_def)
  from frames_unique_exec_append [OF system_new_unique nw0]
  have u: "frames_unique w" and nw1: "no_wrap evs2 w" by (simp_all add: w)
  have ok: "buffer_ok (completedRequestResults (pipeline w))"
    unfolding w by (rule buffer_ok_exec) (rule system_new_facts)
  have frame: "callbackException (pipeline w') \<noteq> None"
    "requestsPool (pipeline w') = requestsPool (pipeline w)"
    "completedRequestResults (pipeline w') = completedRequestResults (pipeline w)"
    "inputFrameId (pipeline w') = inputFrameId (pipeline w)"
    "outputFrameId (pipeline w') = outputFrameId (pipeline w)"
    "perfInfo (pipeline w') = perfInfo (pipeline w)"
    "inflight w' = (inflight w)(req := None)"
    using c by (simp_all add: w'_def completionCallback_def)
  have ok': "buffer_ok (completedRequestResults (pipeline w'))"
    using ok by (simp add: frame)
  have rq: "request c = req" by (rule frames_uniqueD(3) [OF u c])
  have d: "frame_dead (frameID c) w'"
    unfolding w'_def by (rule frame_dead_after_fault [OF u c])
  have nw': "no_wrap evs2 w'"
    using nw1 by (simp add: no_wrap_def frame)
  have slot: "slot_in_use req (exec evs2 w')"
    if "slot_in_use req w \<and> (\<forall>now. Submit req now \<notin> set evs2)"
  proof -
    have "\<And>r' c'. inflight w' r' = Some c' \<Longrightarrow> request c' = r'"
      using frames_uniqueD(3) [OF u] by (auto simp: frame split: if_splits)
    with that have "slot_held req w'"
      by (simp add: slot_held_def slot_in_use_def frame)
    with that have "slot_held req (exec evs2 w')" by (intro slot_held_exec) simp_all
    then show ?thesis by (simp add: slot_held_def)
  qed
  have never: "frameID c \<notin> fst ` set (completedRequestResults (pipeline (exec evs2 w')))"
    using frame_dead_exec [OF d nw'] by (simp add: frame_dead_def)
  note ret = frame_dead_retrieved [OF d nw' ok']
  have stuck: "(\<forall>x \<in> set (returned evs2 w'). snd x = RequestResult_empty) \<and>
              outputFrameId (pipeline (exec evs2 w')) = frameID c"
    if "outputFrameId (pipeline w) = frameID c"
    using frame_dead_stuck [OF d nw'] that by (simp add: frame)
  from frame ok' rq slot never ret stuck show ?thesis
    unfolding Let_def w'_def [symmetric] by (intro conjI impI) simp_all
qed

theorem faulted_slot_kept_witness:
  "inflight (exec one_submit two_slots) 0 =
     Some \<lparr>frameStartTime = 1000000, frameID = 0, request = 0\<rparr> \<and>
   submissions one_submit + submissions after_fault < 2 ^ 63 \<and>
   slot_in_use 0 (exec one_submit two_slots) \<and>
   outputFrameId (pipeline (exec one_submit two_slots)) = 0 \<and>
   slot_in_use 0
     (exec after_fault (step (Complete 0 (Inl (execution_fault 7))) (exec one_submit two_slots))) \<and>
   0 \<notin> fst ` set (completedRequestResults (pipeline
     (exec after_fault
        (step (Complete 0 (Inl (execution_fault 7))) (exec one_submit two_slots))))) \<and>
   outputFrameId (pipeline
     (exec after_fault (step (Complete 0 (Inl (execution_fault 7))) (exec one_submit two_slots))))
     = 0"
proof -
  have w: "exec one_submit two_slots = exec one_submit (system_new ''detection_out'' [Idle, Idle])"
    by (simp only: two_slots_def)
  have st: "exec one_submit two_slots =
     \<lparr>pipeline =
        \<lparr>inputFrameId = 1, outputFrameId = 0, outputName = ''detection_out'',
         requestsPool = [InUse, Idle], completedRequestResults = [],
         callbackException = None,
         perfInfo = \<lparr>framesCount = 0, latencySum = 0, startTime = 1000000,
                     numRequestsInUse = 1, FPS = Finite Plus 0\<rparr>\<rparr>,
      inflight = [0 \<mapsto> \<lparr>frameStartTime = 1000000, frameID = 0, request = 0\<rparr>]\<rparr>"
    by (simp add: one_submit_def two_slots_def system_new_def PipelineBase_new_def
        submitRequest_def getIdleRequest_def getInUseRequestsCount_def next_frame_def Let_def)
  have c: "inflight (exec one_submit two_slots) 0 =
      Some \<lparr>frameStartTime = 1000000, frameID = 0, request = 0\<rparr>"
    by (simp add: st)
  have n: "submissions one_submit + submissions after_fault < 2 ^ 63"
    by (simp add: submissions_def one_submit_def after_fault_def)
  have s: "slot_in_use 0 (exec one_submit two_slots)"
    by (simp add: st slot_in_use_def)
  have a: "\<forall>now. Submit 0 now \<notin> set after_fault"
    by (simp add: after_fault_def)
  have o: "outputFrameId (pipeline (exec one_submit two_slots)) = 0"
    by (simp add: st)
  have f: "frameID \<lparr>frameStartTime = 1000000, frameID = 0, request = 0\<rparr> = 0"
    by simp
  from faulted_slot_kept [OF w c n, of "execution_fault 7"] s a o c n
  show ?thesis
    unfolding Let_def f by blast
qed

subsection \<open>Resubmission and the counter going round\<close>

lemma exec_append: "exec (xs @ ys) w = exec ys (exec xs w)"
  by (induction xs arbitrary: w) simp_all

lemma word_of_nat_nonzero:
  assumes "1 \<le> m" and "m < 2 ^ 63"
  shows "(word_of_nat m :: int64_t) \<noteq> 0"
proof
  assume "(word_of_nat m :: int64_t) = 0"
  then have "sint (word_of_nat m :: int64_t) = 0" by simp
  with sint_word_of_nat_small [OF assms(2)] assms(1) show False by simp
qed

lemma cycle_exec:
  assumes c: "cycling m w" and m: "1 \<le> m" "m < 2 ^ 63"
  shows "cycling (Suc m mod 2 ^ 63) (exec cycle w)"
proof -
  note nz = word_of_nat_nonzero [OF m]
  note nf = next_frame_of_nat [OF m(2)]
  from c nz show ?thesis
    unfolding cycling_def cycle_def
    by (simp add: submitRequest_def completionCallback_def getIdleRequest_def
        setRequestIdle_def emplace_def Let_def nf map_add_def)
qed

lemma cycles_exec:
  "cycling m w \<Longrightarrow> 1 \<le> m \<Longrightarrow> m < 2 ^ 63 \<Longrightarrow> m + n \<le> 2 ^ 63 \<Longrightarrow>
   cycling ((m + n) mod 2 ^ 63) (exec (concat (replicate n cycle)) w)"
proof (induction n arbitrary: m w)
  case 0
  then show ?case by simp
next
  case (Suc n)
  note c' = cycle_exec [OF Suc.prems(1,2,3)]
  have e: "exec (concat (replicate (Suc n) cycle)) w =
      exec (concat (replicate n cycle)) (exec cycle w)"
    by (simp add: exec_append)
  show ?case
  proof (cases "Suc m < 2 ^ 63")
    case True
    then have s: "Suc m mod 2 ^ 63 = Suc m" by (rule mod_less)
    from Suc.prems(4) have "Suc m + n \<le> 2 ^ 63" by simp
    from Suc.IH [OF c' [unfolded s] _ True this]
    show ?thesis unfolding e by simp
  next
    case False
    with Suc.prems(3) have m: "Suc m = 2 ^ 63" by simp
    with Suc.prems(4) have n: "n = 0" by simp
    have z: "(m + Suc n) mod 2 ^ 63 = Suc m mod 2 ^ 63" by (simp add: n)
    from c' show ?thesis unfolding e z by (simp add: n)
  qed
qed

lemma cycle_reuses_frame:
  assumes "cycling 0 w"
  shows "fst (getResult now (pipeline (exec cycle w))) =
           \<lparr>frameId = 0, outputBlob = Some [5], startTime = 3000000\<rparr>"
  using assms unfolding cycling_def cycle_def
  by (simp add: submitRequest_def completionCallback_def getIdleRequest_def
      setRequestIdle_def emplace_def getResult_def Let_def map_add_def)

lemma after_fault_state:
  "cycling 1 (exec (one_submit @ [Complete 0 (Inl (execution_fault 7))]) two_slots)"
  by (simp add: cycling_def one_submit_def two_slots_def system_new_def PipelineBase_new_def
      submitRequest_def completionCallback_def getIdleRequest_def getInUseRequestsCount_def
      next_frame_def Let_def)

lemma wrap_around_result:
  "fst (getResult 4000000 (pipeline (exec wrap_around two_slots))) =
     \<lparr>frameId = 0, outputBlob = Some [5], startTime = 3000000\<rparr>"
proof -
  let ?w1 = "exec (one_submit @ [Complete 0 (Inl (execution_fault 7))]) two_slots"
  have a: "(1::nat) \<le> 1" "(1::nat) < 2 ^ 63" "(1::nat) + (2 ^ 63 - 1) \<le> 2 ^ 63" by simp_all
  have z: "((1::nat) + (2 ^ 63 - 1)) mod 2 ^ 63 = 0" by simp
  from cycles_exec [OF after_fault_state a]
  have c0: "cycling 0 (exec (concat (replicate (2 ^ 63 - 1) cycle)) ?w1)"
    unfolding z .
  have e: "exec wrap_around two_slots =
      exec cycle (exec (concat (replicate (2 ^ 63 - 1) cycle)) ?w1)"
    unfolding wrap_around_def by (simp only: exec_append append_assoc [symmetric])
  show ?thesis unfolding e by (rule cycle_reuses_frame [OF c0])
qed

text \<open>
  Claim C8, as the spec states it, fails in both of its "for ever". \<open>submitRequest\<close>
  accepts a request whatever the state of its slot: when the consumer submits request 0
  again after the completion of frame 0 on it has raised, and the new unit completes, the
  lambda sets slot 0 idle. And after \<open>2 ^ 63\<close> further submissions the counter hands out
  frame number 0 again: the result of that unit is deposited under 0, and \<open>getResult\<close>,
  which has been waiting at 0 since the fault, returns it.
\<close>

theorem faulted_slot_kept_counterexample:
  "inflight (exec one_submit two_slots) 0 =
     Some \<lparr>frameStartTime = 1000000, frameID = 0, request = 0\<rparr> \<and>
   slot_in_use 0 (step (Complete 0 (Inl (execution_fault 7))) (exec one_submit two_slots)) \<and>
   \<not> slot_in_use 0
     (exec resubmit (step (Complete 0 (Inl (execution_fault 7))) (exec one_submit two_slots))) \<and>
   fst (getResult 4000000 (pipeline (exec wrap_around two_slots))) =
     \<lparr>frameId = 0, outputBlob = Some [5], startTime = 3000000\<rparr>"
proof -
  have "inflight (exec one_submit two_slots) 0 =
     Some \<lparr>frameStartTime = 1000000, frameID = 0, request = 0\<rparr> \<and>
   slot_in_use 0 (step (Complete 0 (Inl (execution_fault 7))) (exec one_submit two_slots)) \<and>
   \<not> slot_in_use 0
     (exec resubmit (step (Complete 0 (Inl (execution_fault 7))) (exec one_submit two_slots)))"
    by (simp add: slot_in_use_def resubmit_def one_submit_def two_slots_def system_new_def
      PipelineBase_new_def submitRequest_def completionCallback_def getIdleRequest_def
      getInUseRequestsCount_def setRequestIdle_def emplace_def next_frame_def Let_def)
  with wrap_around_result show ?thesis by blast
qed

end
